theory Spec2Isabelle
  imports Main "HOL-Library.Word"
begin

unbundle bit_operations_syntax

section \<open>JavaScript strings, UTF-8 and base64\<close>

text \<open>
  A JavaScript string is a sequence of UTF-16 code units; \<open>s.length\<close> and
  \<open>s.slice\<close> count code units. String literals of the source are ASCII and are
  written with \<open>js\<close>.
\<close>

type_synonym jsstring = "16 word list"

definition js :: "string \<Rightarrow> jsstring" where
  "js s = map of_char s"

definition is_high_surrogate :: "16 word \<Rightarrow> bool" where
  "is_high_surrogate c = (0xD800 \<le> c \<and> c \<le> 0xDBFF)"

definition is_low_surrogate :: "16 word \<Rightarrow> bool" where
  "is_low_surrogate c = (0xDC00 \<le> c \<and> c \<le> 0xDFFF)"

definition is_surrogate :: "16 word \<Rightarrow> bool" where
  "is_surrogate c = (0xD800 \<le> c \<and> c \<le> 0xDFFF)"

text \<open>
  The code points of a string, as every UTF-8 encoder of Node reads them
  (\<open>Buffer.from(s)\<close>, \<open>fs.writeFile(f, s)\<close>, \<open>encodeURIComponent\<close> apart):
  a high surrogate followed by a low one is one supplementary code point, any other
  surrogate is replaced by U+FFFD.
\<close>

fun code_points :: "jsstring \<Rightarrow> 32 word list" where
  "code_points [] = []"
| "code_points [c] = (if is_surrogate c then [0xFFFD] else [ucast c])"
| "code_points (c # d # cs) =
     (if is_high_surrogate c \<and> is_low_surrogate d
      then (0x10000 + push_bit 10 (ucast (c AND 0x3FF)) + ucast (d AND 0x3FF)) # code_points cs
      else if is_surrogate c then 0xFFFD # code_points (d # cs)
      else ucast c # code_points (d # cs))"

definition utf8_bytes :: "32 word \<Rightarrow> 8 word list" where
  "utf8_bytes cp =
     (if cp < 0x80 then [ucast cp]
      else if cp < 0x800 then
        [0xC0 OR ucast (drop_bit 6 cp), 0x80 OR ucast (cp AND 0x3F)]
      else if cp < 0x10000 then
        [0xE0 OR ucast (drop_bit 12 cp), 0x80 OR ucast (drop_bit 6 cp AND 0x3F),
         0x80 OR ucast (cp AND 0x3F)]
      else
        [0xF0 OR ucast (drop_bit 18 cp), 0x80 OR ucast (drop_bit 12 cp AND 0x3F),
         0x80 OR ucast (drop_bit 6 cp AND 0x3F), 0x80 OR ucast (cp AND 0x3F)])"

text \<open>\<open>Buffer.from(s)\<close>: the UTF-8 bytes of a string.\<close>

definition utf8_encode :: "jsstring \<Rightarrow> 8 word list" where
  "utf8_encode s = concat (map utf8_bytes (code_points s))"

text \<open>
  What a string becomes when it is encoded to UTF-8 and decoded again
  (\<open>String.prototype.toWellFormed\<close>): unpaired surrogates become U+FFFD, everything
  else is kept. A string is well formed when this changes nothing
  (\<open>String.prototype.isWellFormed\<close>).
\<close>

fun toWellFormed :: "jsstring \<Rightarrow> jsstring" where
  "toWellFormed [] = []"
| "toWellFormed [c] = (if is_surrogate c then [0xFFFD] else [c])"
| "toWellFormed (c # d # cs) =
     (if is_high_surrogate c \<and> is_low_surrogate d then c # d # toWellFormed cs
      else if is_surrogate c then 0xFFFD # toWellFormed (d # cs)
      else c # toWellFormed (d # cs))"

definition isWellFormed :: "jsstring \<Rightarrow> bool" where
  "isWellFormed s = (toWellFormed s = s)"

text \<open>\<open>buf.toString("base64")\<close>: RFC 4648 base64 with the standard alphabet and padding.\<close>

definition b64_alphabet :: string where
  "b64_alphabet = ''ABCDEFGHIJKLMNOPQRSTUVWXYZabcdefghijklmnopqrstuvwxyz0123456789+/''"

definition b64_char :: "8 word \<Rightarrow> char" where
  "b64_char v = b64_alphabet ! unat v"

fun base64 :: "8 word list \<Rightarrow> string" where
  "base64 [] = []"
| "base64 [a] =
     [b64_char (drop_bit 2 a), b64_char (push_bit 4 (a AND 3)), CHR ''='', CHR ''='']"
| "base64 [a, b] =
     [b64_char (drop_bit 2 a), b64_char (push_bit 4 (a AND 3) OR drop_bit 4 b),
      b64_char (push_bit 2 (b AND 15)), CHR ''='']"
| "base64 (a # b # c # rest) =
     [b64_char (drop_bit 2 a), b64_char (push_bit 4 (a AND 3) OR drop_bit 4 b),
      b64_char (push_bit 2 (b AND 15) OR drop_bit 6 c), b64_char (c AND 63)] @ base64 rest"

section \<open>The cache directory\<close>

text \<open>
  The directory \<open>cacheDir\<close> as a tree. A file holds the text that
  \<open>fs.readFile(f, "utf-8")\<close> yields for it. A path is the list of its segments below
  \<open>cacheDir\<close>.
\<close>

datatype node = File jsstring | Dir "(string \<times> node) list"

datatype fs_error = ENOENT | ENOTDIR | EISDIR | ENAMETOOLONG

text \<open>The longest file name the file system takes (NAME_MAX).\<close>

definition NAME_MAX :: nat where
  "NAME_MAX = 255"

text \<open>Path resolution, as \<open>access\<close> and \<open>open\<close> do it.\<close>

fun lookup :: "node \<Rightarrow> string list \<Rightarrow> fs_error + node" where
  "lookup n [] = Inr n"
| "lookup (File t) (c # cs) = Inl ENOTDIR"
| "lookup (Dir es) (c # cs) =
     (if NAME_MAX < length c then Inl ENAMETOOLONG
      else case map_of es c of None \<Rightarrow> Inl ENOENT | Some m \<Rightarrow> lookup m cs)"

text \<open>\<open>fs.pathExists(p)\<close> of fs-extra: \<open>access(p)\<close>, any error read as "no".\<close>

definition pathExists :: "node \<Rightarrow> string list \<Rightarrow> bool" where
  "pathExists root p = (case lookup root p of Inl e \<Rightarrow> False | Inr n \<Rightarrow> True)"

text \<open>\<open>fs.readFile(p, "utf-8")\<close>: throws unless \<open>p\<close> is a regular file.\<close>

definition readFile :: "node \<Rightarrow> string list \<Rightarrow> fs_error + jsstring" where
  "readFile root p =
     (case lookup root p of
        Inl e \<Rightarrow> Inl e
      | Inr (File t) \<Rightarrow> Inr t
      | Inr (Dir es) \<Rightarrow> Inl EISDIR)"

text \<open>
  \<open>fs.writeFile(p, data)\<close>: creates or truncates the file \<open>p\<close> and writes the UTF-8
  encoding of \<open>data\<close>. It creates no directory: every segment but the last must be an
  existing directory.
\<close>

fun put_entry :: "string \<Rightarrow> node \<Rightarrow> (string \<times> node) list \<Rightarrow> (string \<times> node) list" where
  "put_entry c n [] = [(c, n)]"
| "put_entry c n ((k, m) # es) = (if k = c then (c, n) # es else (k, m) # put_entry c n es)"

fun writeFile :: "node \<Rightarrow> string list \<Rightarrow> jsstring \<Rightarrow> fs_error + node" where
  "writeFile (File t) [] data = Inr (File (toWellFormed data))"
| "writeFile (Dir es) [] data = Inl EISDIR"
| "writeFile (File t) (c # cs) data = Inl ENOTDIR"
| "writeFile (Dir es) (c # cs) data =
     (if NAME_MAX < length c then Inl ENAMETOOLONG
      else case map_of es c of
        None \<Rightarrow>
          (if cs = [] then Inr (Dir (put_entry c (File (toWellFormed data)) es))
           else Inl ENOENT)
      | Some m \<Rightarrow>
          (case writeFile m cs data of
             Inl e \<Rightarrow> Inl e
           | Inr m' \<Rightarrow> Inr (Dir (put_entry c m' es))))"

text \<open>
  \<open>path.join(cacheDir, name)\<close>, as the segments below \<open>cacheDir\<close>: the name is cut
  at every \<open>/\<close> and empty segments are dropped. (The segments \<open>.\<close> and \<open>..\<close>, which
  \<open>path.join\<close> would resolve, do not occur: the only dots of a cache file name are
  those of its suffix.)
\<close>

fun split_slash :: "string \<Rightarrow> string list" where
  "split_slash [] = [[]]"
| "split_slash (c # cs) =
     (if c = CHR ''/'' then [] # split_slash cs
      else case split_slash cs of [] \<Rightarrow> [[c]] | s # ss \<Rightarrow> (c # s) # ss)"

definition path_join :: "string \<Rightarrow> string list" where
  "path_join name = filter (\<lambda>s. s \<noteq> []) (split_slash name)"

section \<open>The world the retriever runs in\<close>

text \<open>
  What a request gives once the page is parsed.
  \<open>Threw\<close>: \<open>fetchWithTimeout\<close>, \<open>res.text()\<close> or \<open>load\<close> throws (the timer aborts the
  request, network error, parse error).
  \<open>Html\<close>: the page, of which the code reads the \<open>href\<close> of every \<open>a.result__a\<close>
  (\<open>None\<close> is \<open>undefined\<close>: an anchor without the attribute) and the text of every
  element matching \<open>code, pre, .code, .editor, .snippet\<close>, both in document order.
  \<open>Hangs\<close>: \<open>fetch\<close> resolves with the response headers, \<open>fetchWithTimeout\<close> clears
  its timer, and the body never ends: \<open>await res.text()\<close> does not return.
\<close>

datatype response = Threw | Html (anchors: "jsstring option list") (codes: "jsstring list") | Hangs

text \<open>
  The messages of \<open>log\<close>:
  \<open>Fetching\<close> is "Fetching full code from web editors...",
  \<open>UsingCached\<close> is "Using cached snippet.",
  \<open>SearchFailed\<close> is "DuckDuckGo fetch failed after retries.",
  \<open>SnippetFailed url\<close> is "Failed to fetch snippet from url".
\<close>

datatype log_msg = Fetching | UsingCached | SearchFailed | SnippetFailed "jsstring option"

text \<open>
  \<open>cache\<close> is the directory \<open>cacheDir\<close>; \<open>web n url\<close> is what the request number
  \<open>n\<close> of the run (from 0, in the order in which the requests are sent) gets when it
  is sent to \<open>url\<close>; \<open>fetched\<close> lists the requests sent so far, in that order, and
  \<open>logged\<close> the messages printed so far.
\<close>

record world =
  cache :: node
  web :: "nat \<Rightarrow> jsstring \<Rightarrow> response"
  fetched :: "jsstring list"
  logged :: "log_msg list"

definition log :: "log_msg \<Rightarrow> world \<Rightarrow> world" where
  "log msg w = w\<lparr>logged := logged w @ [msg]\<rparr>"

section \<open>Caching system\<close>

definition cache_file :: "jsstring \<Rightarrow> string list" where
  "cache_file query = path_join (base64 (utf8_encode query) @ ''.txt'')"

definition getCached :: "jsstring \<Rightarrow> world \<Rightarrow> fs_error + jsstring option" where
  "getCached query w =
     (let file = cache_file query in
      if pathExists (cache w) file then
        (case readFile (cache w) file of Inl e \<Rightarrow> Inl e | Inr t \<Rightarrow> Inr (Some t))
      else Inr None)"

definition setCached :: "jsstring \<Rightarrow> jsstring \<Rightarrow> world \<Rightarrow> fs_error + world" where
  "setCached query data w =
     (let file = cache_file query in
      case writeFile (cache w) file data of
        Inl e \<Rightarrow> Inl e
      | Inr root \<Rightarrow> Inr (w\<lparr>cache := root\<rparr>))"

section \<open>Web scraping helpers\<close>

text \<open>
  \<open>encodeURIComponent\<close>: every byte of the UTF-8 encoding that is not an unreserved
  ASCII character is written \<open>%XX\<close>. It throws URIError (here \<open>None\<close>) on a string
  with an unpaired surrogate.
\<close>

definition uri_unreserved :: "8 word \<Rightarrow> bool" where
  "uri_unreserved b =
     (b = 0x27 \<or> b \<in> set (map of_char
        ''ABCDEFGHIJKLMNOPQRSTUVWXYZabcdefghijklmnopqrstuvwxyz0123456789-_.!~*()''))"

definition hex_digit :: "8 word \<Rightarrow> 16 word" where
  "hex_digit v = of_char (''0123456789ABCDEF'' ! unat v)"

definition uri_escape :: "8 word \<Rightarrow> jsstring" where
  "uri_escape b =
     (if uri_unreserved b then [ucast b]
      else [0x25, hex_digit (drop_bit 4 b), hex_digit (b AND 15)])"

definition encodeURIComponent :: "jsstring \<Rightarrow> jsstring option" where
  "encodeURIComponent s =
     (if isWellFormed s then Some (concat (map uri_escape (utf8_encode s))) else None)"

text \<open>
  The URLs for which \<open>fetch\<close> sends a request: absolute URLs of scheme \<open>http\<close> or
  \<open>https\<close>. The URL parser drops leading spaces and control characters, then every
  tab and newline, and reads the scheme without regard to case. For \<open>undefined\<close>, for
  a relative or scheme-relative reference and for another scheme, \<open>fetch\<close> rejects
  before anything is sent. Two simplifications: an \<open>http\<close> URL that the URL parser
  refuses for its host or port is not told apart from one whose request fails (it is
  listed among the requests, and the network decides the outcome); a \<open>data:\<close> URL
  counts as refused (node-fetch 2 refuses it, node-fetch 3 serves it without a
  request).
\<close>

definition ascii_lower :: "16 word \<Rightarrow> 16 word" where
  "ascii_lower c = (if 0x41 \<le> c \<and> c \<le> 0x5A then c + 0x20 else c)"

definition has_http_scheme :: "jsstring \<Rightarrow> bool" where
  "has_http_scheme url =
     (let s = map ascii_lower
                (filter (\<lambda>c. c \<noteq> 0x09 \<and> c \<noteq> 0x0A \<and> c \<noteq> 0x0D)
                   (dropWhile (\<lambda>c. c \<le> 0x20) url)) in
      take 5 s = js ''http:'' \<or> take 6 s = js ''https:'')"

text \<open>
  \<open>fetchWithTimeout(url)\<close> and the reading of the page that follows it at both call
  sites (\<open>res.text()\<close>, \<open>load\<close>, the selector): one request, whose outcome is the
  \<open>response\<close> of the web to it. The timer guards \<open>fetch\<close> only: it is cleared as soon
  as \<open>fetch\<close> settles, so an aborted request is \<open>Threw\<close> and a body that never ends
  is \<open>Hangs\<close>.
\<close>

definition fetchWithTimeout :: "jsstring option \<Rightarrow> world \<Rightarrow> response \<times> world" where
  "fetchWithTimeout url w =
     (case url of
        None \<Rightarrow> (Threw, w)
      | Some u \<Rightarrow>
          if has_http_scheme u
          then (web w (length (fetched w)) u, w\<lparr>fetched := fetched w @ [u]\<rparr>)
          else (Threw, w))"

text \<open>
  How the body of a \<open>try\<close> inside a retry loop ends: with a \<open>return\<close>, by running to
  its end, in the \<open>catch\<close> block, or never (an \<open>await\<close> that does not return).
\<close>

datatype 'a attempt = Return 'a | Fallthrough | Caught | Never

text \<open>The address of the result page, given the percent-encoded query.\<close>

definition search_url :: "jsstring \<Rightarrow> jsstring" where
  "search_url q = js ''https://duckduckgo.com/html/?q='' @ q"

definition search_try :: "jsstring \<Rightarrow> world \<Rightarrow> jsstring option list attempt \<times> world" where
  "search_try query w =
     (case encodeURIComponent query of
        None \<Rightarrow> (Caught, w)
      | Some q \<Rightarrow>
          (case fetchWithTimeout (Some (search_url q)) w of
             (Threw, w') \<Rightarrow> (Caught, w')
           | (Html links cs, w') \<Rightarrow>
               (if links \<noteq> [] then Return (take 5 links) else Fallthrough, w')
           | (Hangs, w') \<Rightarrow> (Never, w')))"

text \<open>
  \<open>fetchDuckDuckGo(query, retries)\<close>, from the loop index \<open>i\<close> on. The result is
  \<open>None\<close> when the call never returns.
\<close>

function fetchDuckDuckGo_from ::
  "nat \<Rightarrow> jsstring \<Rightarrow> nat \<Rightarrow> world \<Rightarrow> jsstring option list option \<times> world" where
  "fetchDuckDuckGo_from i query retries w =
     (if i \<le> retries then
        (case fst (search_try query w) of
           Return links \<Rightarrow> (Some links, snd (search_try query w))
         | Fallthrough \<Rightarrow> fetchDuckDuckGo_from (Suc i) query retries (snd (search_try query w))
         | Caught \<Rightarrow>
             fetchDuckDuckGo_from (Suc i) query retries
               (if i = retries then log SearchFailed (snd (search_try query w))
                else snd (search_try query w))
         | Never \<Rightarrow> (None, snd (search_try query w)))
      else (Some [], w))"
  by pat_completeness auto
termination
  by (relation "measure (\<lambda>(i, query, retries, w). Suc retries - i)") auto

declare fetchDuckDuckGo_from.simps [simp del]

definition fetchDuckDuckGo ::
  "jsstring \<Rightarrow> nat \<Rightarrow> world \<Rightarrow> jsstring option list option \<times> world" where
  "fetchDuckDuckGo query retries w = fetchDuckDuckGo_from 0 query retries w"

text \<open>\<open>codes.join("\n")\<close>\<close>

fun join_newline :: "jsstring list \<Rightarrow> jsstring" where
  "join_newline [] = []"
| "join_newline [c] = c"
| "join_newline (c # d # cs) = c @ 0x0A # join_newline (d # cs)"

text \<open>
  \<open>fetchCodeSnippet(url, retries)\<close> runs concurrently with the other extractions
  of the fan-out, so its loop is cut at its \<open>await\<close>. A call is either suspended in
  attempt \<open>i\<close>, its request sent (or refused) and the outcome \<open>r\<close> not yet delivered,
  or it has returned a text.
\<close>

datatype task = Awaiting nat response | Settled jsstring

text \<open>What the body of the \<open>try\<close> does with the outcome of its request.\<close>

definition snippet_try :: "response \<Rightarrow> jsstring attempt" where
  "snippet_try r =
     (case r of
        Threw \<Rightarrow> Caught
      | Html links cs \<Rightarrow>
          if cs \<noteq> [] then Return (take 5000 (join_newline cs)) else Fallthrough
      | Hangs \<Rightarrow> Never)"

text \<open>
  The head of the loop at index \<open>i\<close>: past the last attempt the call returns the empty
  string, else it sends the request of attempt \<open>i\<close> and is suspended.
\<close>

definition fetchCodeSnippet_from ::
  "nat \<Rightarrow> jsstring option \<Rightarrow> nat \<Rightarrow> world \<Rightarrow> task \<times> world" where
  "fetchCodeSnippet_from i url retries w =
     (if i \<le> retries then
        (case fetchWithTimeout url w of (r, w') \<Rightarrow> (Awaiting i r, w'))
      else (Settled [], w))"

text \<open>The call \<open>fetchCodeSnippet(url, retries)\<close>: it runs up to its first \<open>await\<close>.\<close>

definition fetchCodeSnippet :: "jsstring option \<Rightarrow> nat \<Rightarrow> world \<Rightarrow> task \<times> world" where
  "fetchCodeSnippet url retries w = fetchCodeSnippet_from 0 url retries w"

text \<open>
  The suspended call is resumed when the outcome of its request is delivered: it
  returns, or goes on to the next index of its loop (after the \<open>catch\<close> block when the
  attempt threw). A call that has returned, or waits for a body that never ends, is not
  resumed.
\<close>

fun fetchCodeSnippet_resume ::
  "jsstring option \<Rightarrow> nat \<Rightarrow> task \<Rightarrow> world \<Rightarrow> task \<times> world" where
  "fetchCodeSnippet_resume url retries (Settled s) w = (Settled s, w)"
| "fetchCodeSnippet_resume url retries (Awaiting i r) w =
     (case snippet_try r of
        Return s \<Rightarrow> (Settled s, w)
      | Fallthrough \<Rightarrow> fetchCodeSnippet_from (Suc i) url retries w
      | Caught \<Rightarrow>
          fetchCodeSnippet_from (Suc i) url retries
            (if i = retries then log (SnippetFailed url) w else w)
      | Never \<Rightarrow> (Awaiting i r, w))"

section \<open>The orchestrator\<close>

text \<open>
  \<open>urls.map((url) => fetchCodeSnippet(url))\<close>: the calls are made in the order of the
  URLs, each with the default \<open>retries = 1\<close>, and each runs up to its first \<open>await\<close>:
  the first request of every extraction is sent before any outcome is delivered.
\<close>

fun fetchCodeSnippets :: "jsstring option list \<Rightarrow> world \<Rightarrow> task list \<times> world" where
  "fetchCodeSnippets [] w = ([], w)"
| "fetchCodeSnippets (url # urls) w =
     (case fetchCodeSnippet url 1 w of
        (t, w1) \<Rightarrow> (case fetchCodeSnippets urls w1 of (ts, w2) \<Rightarrow> (t # ts, w2)))"

text \<open>
  The event loop: the outcome awaited by extraction \<open>j\<close> is delivered and the
  extraction resumed. A schedule is the list of the extractions resumed, in the order
  of the deliveries.
\<close>

definition deliver ::
  "jsstring option list \<Rightarrow> nat \<Rightarrow> task list \<times> world \<Rightarrow> task list \<times> world" where
  "deliver urls j s =
     (case s of (ts, w) \<Rightarrow>
        if j < length ts then
          (case fetchCodeSnippet_resume (urls ! j) 1 (ts ! j) w of
             (t, w') \<Rightarrow> (ts[j := t], w'))
        else (ts, w))"

definition fan_out ::
  "nat list \<Rightarrow> jsstring option list \<Rightarrow> world \<Rightarrow> task list \<times> world" where
  "fan_out schedule urls w = fold (deliver urls) schedule (fetchCodeSnippets urls w)"

text \<open>
  \<open>Promise.all\<close> over the extractions: it is fulfilled once every extraction has
  returned, with their texts in the order of the calls, whatever the order in which
  they returned. \<open>None\<close>: some extraction has not returned, and \<open>Promise.all\<close> is
  pending.
\<close>

fun returned :: "task \<Rightarrow> jsstring option" where
  "returned (Settled s) = Some s"
| "returned (Awaiting i r) = None"

definition Promise_all :: "task list \<Rightarrow> jsstring list option" where
  "Promise_all ts =
     (if list_all (\<lambda>t. returned t \<noteq> None) ts then Some (map (\<lambda>t. the (returned t)) ts)
      else None)"

text \<open>The truthiness of a value that is a string, \<open>null\<close> or \<open>undefined\<close>.\<close>

fun truthy :: "jsstring option \<Rightarrow> bool" where
  "truthy None = False"
| "truthy (Some s) = (s \<noteq> [])"

text \<open>How an \<open>async\<close> call ends.\<close>

datatype 'a promise = Fulfilled 'a | Rejected fs_error | Pending

text \<open>
  \<open>fetchCodeFromWeb(description)\<close>. \<open>schedule\<close> is the order in which the outcomes
  of the requests of the fan-out are delivered. The call is \<open>Pending\<close> when the search
  never returns, and when the schedule ends before every extraction has returned (an
  extraction waits for a body that never ends, or the run is observed before its end).
\<close>

definition fetchCodeFromWeb ::
  "nat list \<Rightarrow> jsstring \<Rightarrow> world \<Rightarrow> jsstring promise \<times> world" where
  "fetchCodeFromWeb schedule description w =
     (let w0 = log Fetching w in
      case getCached description w0 of
        Inl e \<Rightarrow> (Rejected e, w0)
      | Inr cached \<Rightarrow>
          if truthy cached then (Fulfilled (the cached), log UsingCached w0)
          else
            (case fetchDuckDuckGo (description @ js '' full project code'') 2 w0 of
               (None, w1) \<Rightarrow> (Pending, w1)
             | (Some urls, w1) \<Rightarrow>
                 (case fan_out schedule urls w1 of
                    (ts, w2) \<Rightarrow>
                      (case Promise_all ts of
                         None \<Rightarrow> (Pending, w2)
                       | Some snippets \<Rightarrow>
                           (let validSnippet = find (\<lambda>s. 200 < length s) snippets in
                            if truthy validSnippet then
                              (case setCached description (the validSnippet) w2 of
                                 Inl e \<Rightarrow> (Rejected e, w2)
                               | Inr w3 \<Rightarrow> (Fulfilled (the validSnippet), w3))
                            else (Fulfilled [], w2))))))"

section \<open>Vocabulary of the properties\<close>

text \<open>
  The result links of a response; what the attempt number \<open>k\<close> (from 0) of a search
  gets when the search starts in the world \<open>w\<close>; an attempt that ends without links
  (it throws, or delivers a page without result links).
\<close>

definition links_of :: "response \<Rightarrow> jsstring option list" where
  "links_of r = (case r of Html links cs \<Rightarrow> links | _ \<Rightarrow> [])"

definition search_response :: "jsstring \<Rightarrow> world \<Rightarrow> nat \<Rightarrow> response" where
  "search_response e w k = web w (length (fetched w) + k) (search_url e)"

definition no_links :: "response \<Rightarrow> bool" where
  "no_links r = (case r of Threw \<Rightarrow> True | Html links cs \<Rightarrow> links = [] | Hangs \<Rightarrow> False)"

text \<open>
  The snippet that \<open>fetchCodeSnippet\<close> extracts from a page; and: \<open>s\<close> is the
  snippet of a page that some request of the run, sent to \<open>url\<close>, has delivered.
\<close>

definition snippet_of :: "jsstring list \<Rightarrow> jsstring" where
  "snippet_of cs = take 5000 (join_newline cs)"

definition page_snippet :: "world \<Rightarrow> jsstring option \<Rightarrow> jsstring \<Rightarrow> bool" where
  "page_snippet w url s =
     (\<exists>n \<in> {..<length (fetched w)}.
        url = Some (fetched w ! n) \<and>
        (case web w n (fetched w ! n) of
           Html links cs \<Rightarrow> cs \<noteq> [] \<and> s = snippet_of cs
         | _ \<Rightarrow> False))"

text \<open>
  \<open>later w w'\<close>: the world \<open>w'\<close> is \<open>w\<close> after more requests and messages, the cache
  directory and the network being the same.
\<close>

definition later :: "world \<Rightarrow> world \<Rightarrow> bool" where
  "later w w' =
     (cache w' = cache w \<and> web w' = web w \<and>
      take (length (fetched w)) (fetched w') = fetched w)"

text \<open>
  What holds of every extraction of a fan-out, in the world \<open>w\<close> of the run so far: the
  outcome it waits for is a refusal of \<open>fetch\<close> or the response to a request of the run
  to its URL, and the text it has returned is empty or the snippet of a page that such
  a request has delivered, of at most 5000 code units.
\<close>

definition task_ok :: "world \<Rightarrow> jsstring option \<Rightarrow> task \<Rightarrow> bool" where
  "task_ok w url t =
     (case t of
        Awaiting i r \<Rightarrow>
          r = Threw \<or>
          (\<exists>n \<in> {..<length (fetched w)}. url = Some (fetched w ! n) \<and> r = web w n (fetched w ! n))
      | Settled s \<Rightarrow> length s \<le> 5000 \<and> (s = [] \<or> page_snippet w url s))"

text \<open>
  A network that answers by the URL alone: \<open>page u\<close> is what every request to \<open>u\<close>
  gets. On it, \<open>outcome page url\<close> is what every attempt of \<open>fetchCodeSnippet(url)\<close>
  gets, and \<open>extracted page url\<close> the text that the call returns, if no body hangs:
  the snippet of the page, or the empty string when both attempts fail.
\<close>

definition outcome :: "(jsstring \<Rightarrow> response) \<Rightarrow> jsstring option \<Rightarrow> response" where
  "outcome page url =
     (case url of
        None \<Rightarrow> Threw
      | Some u \<Rightarrow> if has_http_scheme u then page u else Threw)"

definition extracted :: "(jsstring \<Rightarrow> response) \<Rightarrow> jsstring option \<Rightarrow> jsstring" where
  "extracted page url = (case snippet_try (outcome page url) of Return s \<Rightarrow> s | _ \<Rightarrow> [])"

text \<open>
  The number of deliveries after which an extraction (with the default \<open>retries = 1\<close>)
  has returned at the latest.
\<close>

definition attempts_left :: "task \<Rightarrow> nat" where
  "attempts_left t = (case t of Settled s \<Rightarrow> 0 | Awaiting i r \<Rightarrow> 2 - i)"

text \<open>
  The invariant of the cache directory: every file in it holds a text of more than 200
  and at most 5000 code units.
\<close>

fun valid_entries :: "node \<Rightarrow> bool" where
  "valid_entries (File t) = (200 < length t \<and> length t \<le> 5000)"
| "valid_entries (Dir es) = (\<forall>e \<in> set es. valid_entries (snd e))"

section \<open>Example worlds\<close>

text \<open>A network on which every request fails, and a run that starts on an empty cache.\<close>

definition offline :: "nat \<Rightarrow> jsstring \<Rightarrow> response" where
  "offline n url = Threw"

definition fresh_world :: world where
  "fresh_world = \<lparr>cache = Dir [], web = offline, fetched = [], logged = []\<rparr>"

text \<open>
  A search engine that answers with pages without result links; one that fails twice
  and then answers with six result links.
\<close>

definition blank_pages :: "nat \<Rightarrow> jsstring \<Rightarrow> response" where
  "blank_pages n url = Html [] []"

definition six_links :: "jsstring option list" where
  "six_links = map (\<lambda>s. Some (js s))
     [''http://a/1'', ''http://a/2'', ''http://a/3'', ''http://a/4'', ''http://a/5'', ''http://a/6'']"

definition third_time_lucky :: "nat \<Rightarrow> jsstring \<Rightarrow> response" where
  "third_time_lucky n url = (if n < 2 then Threw else Html six_links [])"

text \<open>
  The selection scenario of the specification: the search returns three URLs, whose
  pages hold code of 50, 300 and 900 characters. And a web on which every page holds
  one result link and 300 characters of code.
\<close>

definition three_pages :: "nat \<Rightarrow> jsstring \<Rightarrow> response" where
  "three_pages n url =
     (if url = js ''http://a/1'' then Html [] [replicate 50 0x61]
      else if url = js ''http://a/2'' then Html [] [replicate 300 0x61]
      else if url = js ''http://a/3'' then Html [] [replicate 900 0x61]
      else Html [Some (js ''http://a/1''), Some (js ''http://a/2''), Some (js ''http://a/3'')] [])"

definition always_code :: "nat \<Rightarrow> jsstring \<Rightarrow> response" where
  "always_code n url = Html [Some (js ''http://a/2'')] [replicate 300 0x61]"

text \<open>
  A web that answers by the number of the request: the search page with two result
  links, then a failure, then a page with 300 letters \<open>a\<close>, then pages with 300
  letters \<open>b\<close>.
\<close>

definition numbered_pages :: "nat \<Rightarrow> jsstring \<Rightarrow> response" where
  "numbered_pages n url =
     (if n = 0 then Html [Some (js ''http://a/1''), Some (js ''http://a/2'')] []
      else if n = 1 then Threw
      else if n = 2 then Html [] [replicate 300 0x61]
      else Html [] [replicate 300 0x62])"

section \<open>Strings and the cache directory\<close>

lemma length_toWellFormed: "length (toWellFormed s) = length s"
  by (induction s rule: toWellFormed.induct) auto

lemma high_surrogate_is_surrogate: "is_high_surrogate c \<Longrightarrow> is_surrogate c"
  by (simp add: is_surrogate_def is_high_surrogate_def word_le_nat_alt)

lemma toWellFormed_plain_Cons:
  "\<not> is_surrogate c \<Longrightarrow> toWellFormed (c # s) = c # toWellFormed s"
  by (cases s) (auto dest: high_surrogate_is_surrogate)

lemma toWellFormed_replicate_append:
  "\<not> is_surrogate c \<Longrightarrow> toWellFormed (replicate n c @ s) = replicate n c @ toWellFormed s"
  by (induction n) (simp_all add: toWellFormed_plain_Cons)

lemma isWellFormed_replicate: "\<not> is_surrogate c \<Longrightarrow> isWellFormed (replicate n c)"
  using toWellFormed_replicate_append [of c n "[]"] by (simp add: isWellFormed_def)

lemma plain_a: "\<not> is_surrogate (0x61 :: 16 word)"
  by (simp add: is_surrogate_def)

lemma map_of_put_entry: "map_of (put_entry c n es) = (map_of es)(c \<mapsto> n)"
  by (induction c n es rule: put_entry.induct) auto

lemma lookup_writeFile:
  "writeFile root p data = Inr root' \<Longrightarrow> lookup root' p = Inr (File (toWellFormed data))"
  by (induction root p data arbitrary: root' rule: writeFile.induct)
     (auto simp: map_of_put_entry split: if_splits option.splits sum.splits)

lemma getCached_after_setCached:
  assumes "setCached query data w = Inr w'"
  shows "getCached query w' = Inr (Some (toWellFormed data))"
proof -
  from assms obtain root' where w: "writeFile (cache w) (cache_file query) data = Inr root'"
    and w': "w' = w\<lparr>cache := root'\<rparr>"
    by (auto simp: setCached_def Let_def split: sum.splits)
  from lookup_writeFile [OF w] show ?thesis
    by (simp add: getCached_def pathExists_def readFile_def w')
qed

lemma cache_file_a: "cache_file (js ''a'') = [''YQ==.txt'']"
  by (simp add: cache_file_def js_def utf8_encode_def utf8_bytes_def is_surrogate_def
      b64_char_def b64_alphabet_def path_join_def)

lemma cache_file_dashboard:
  "cache_file (js ''dashboard with login routes'') =
     [''ZGFzaGJvYXJkIHdpdGggbG9naW4gcm91dGVz.txt'']"
  by (simp add: cache_file_def js_def utf8_encode_def utf8_bytes_def is_surrogate_def
      is_high_surrogate_def is_low_surrogate_def b64_char_def b64_alphabet_def path_join_def)

text \<open>A description of 200 letters: its cache file name has 272 characters.\<close>

lemma long_cache_file:
  "length (cache_file (replicate 200 0x61)) = 1
   \<and> NAME_MAX < length (hd (cache_file (replicate 200 0x61)))"
  by code_simp

lemma long_write:
  "writeFile (Dir []) (cache_file (replicate 200 0x61)) data = Inl ENAMETOOLONG"
proof -
  from long_cache_file obtain seg where "cache_file (replicate 200 0x61) = [seg]"
    and "NAME_MAX < length seg"
    by (cases "cache_file (replicate 200 0x61)") auto
  then show ?thesis by simp
qed

lemma long_lookup:
  "lookup (Dir []) (cache_file (replicate 200 0x61)) = Inl ENAMETOOLONG"
proof -
  from long_cache_file obtain seg where "cache_file (replicate 200 0x61) = [seg]"
    and "NAME_MAX < length seg"
    by (cases "cache_file (replicate 200 0x61)") auto
  then show ?thesis by simp
qed

section \<open>Properties of the cache\<close>

text \<open>
  C2, as amended. When \<open>setCached(Q, T)\<close> succeeds and \<open>T\<close> is well formed (it has no
  unpaired surrogate), \<open>getCached(Q)\<close> succeeds and returns exactly \<open>T\<close>.
\<close>

theorem setCached_getCached_roundtrip:
  assumes "setCached query data w = Inr w'" and "isWellFormed data"
  shows "getCached query w' = Inr (Some data)"
  using getCached_after_setCached [OF assms(1)] assms(2) by (simp add: isWellFormed_def)

text \<open>
  The end-to-end scenario of the specification: the query
  \<open>dashboard with login routes\<close>, an empty cache and a snippet of 250 characters.
\<close>

theorem setCached_getCached_roundtrip_witness:
  "setCached (js ''dashboard with login routes'') (replicate 250 0x61) fresh_world =
     Inr (fresh_world\<lparr>cache :=
       Dir [(''ZGFzaGJvYXJkIHdpdGggbG9naW4gcm91dGVz.txt'', File (replicate 250 0x61))]\<rparr>)
   \<and> isWellFormed (replicate 250 0x61)
   \<and> getCached (js ''dashboard with login routes'')
        (fresh_world\<lparr>cache :=
          Dir [(''ZGFzaGJvYXJkIHdpdGggbG9naW4gcm91dGVz.txt'', File (replicate 250 0x61))]\<rparr>) =
      Inr (Some (replicate 250 0x61))"
proof -
  have wf: "isWellFormed (replicate 250 (0x61 :: 16 word))"
    by (rule isWellFormed_replicate [OF plain_a])
  have s: "setCached (js ''dashboard with login routes'') (replicate 250 0x61) fresh_world =
     Inr (fresh_world\<lparr>cache :=
       Dir [(''ZGFzaGJvYXJkIHdpdGggbG9naW4gcm91dGVz.txt'', File (replicate 250 0x61))]\<rparr>)"
    using wf
    by (simp add: setCached_def cache_file_dashboard fresh_world_def NAME_MAX_def
        isWellFormed_def)
  from s wf setCached_getCached_roundtrip [OF s wf] show ?thesis by simp
qed

text \<open>
  C2 as stated fails on a text that \<open>slice(0, 5000)\<close> has cut in the middle of a
  surrogate pair: 4999 letters and a high surrogate are written, the file holds U+FFFD
  in its place, and \<open>getCached\<close> returns another text than the one that was set.
  It also fails on a query of 200 letters, for which \<open>setCached\<close> does not succeed:
  the file name is too long.
\<close>

theorem setCached_getCached_counterexample:
  "setCached (js ''a'') (replicate 4999 0x61 @ [0xD83D]) fresh_world =
     Inr (fresh_world\<lparr>cache := Dir [(''YQ==.txt'', File (replicate 4999 0x61 @ [0xFFFD]))]\<rparr>)
   \<and> getCached (js ''a'')
        (fresh_world\<lparr>cache := Dir [(''YQ==.txt'', File (replicate 4999 0x61 @ [0xFFFD]))]\<rparr>) =
      Inr (Some (replicate 4999 0x61 @ [0xFFFD]))
   \<and> replicate 4999 0x61 @ [0xFFFD] \<noteq> replicate 4999 0x61 @ [0xD83D :: 16 word]
   \<and> setCached (replicate 200 0x61) (replicate 250 0x61) fresh_world = Inl ENAMETOOLONG"
proof -
  have t: "toWellFormed (replicate 4999 0x61 @ [0xD83D]) = replicate 4999 0x61 @ [0xFFFD]"
    by (simp add: toWellFormed_replicate_append [OF plain_a] is_surrogate_def)
  have l: "setCached (replicate 200 0x61) (replicate 250 0x61) fresh_world = Inl ENAMETOOLONG"
    by (simp add: setCached_def long_write fresh_world_def)
  have a: "setCached (js ''a'') (replicate 4999 0x61 @ [0xD83D]) fresh_world =
     Inr (fresh_world\<lparr>cache := Dir [(''YQ==.txt'', File (replicate 4999 0x61 @ [0xFFFD]))]\<rparr>)"
    by (simp add: setCached_def cache_file_a t fresh_world_def NAME_MAX_def)
  have b: "getCached (js ''a'')
        (fresh_world\<lparr>cache := Dir [(''YQ==.txt'', File (replicate 4999 0x61 @ [0xFFFD]))]\<rparr>) =
      Inr (Some (replicate 4999 0x61 @ [0xFFFD]))"
    by (simp add: getCached_def pathExists_def readFile_def cache_file_a fresh_world_def
        NAME_MAX_def)
  have c: "replicate 4999 0x61 @ [0xFFFD] \<noteq> replicate 4999 0x61 @ [0xD83D :: 16 word]"
    by simp
  from a b c l show ?thesis by (intro conjI)
qed

text \<open>
  C3, as amended. \<open>getCached\<close> returns \<open>null\<close> when the path of the entry does not
  resolve, and the content when the entry is a regular file; when the entry exists and
  reading it fails (here: it is a directory), the error of \<open>readFile\<close> is thrown to the
  caller.
\<close>

theorem getCached_outcomes:
  "(case lookup (cache w) (cache_file query) of
      Inl e \<Rightarrow> getCached query w = Inr None
    | Inr (File t) \<Rightarrow> getCached query w = Inr (Some t)
    | Inr (Dir es) \<Rightarrow> getCached query w = Inl EISDIR)"
  by (simp add: getCached_def pathExists_def readFile_def split: sum.splits node.splits)

text \<open>C3 as stated fails when the entry of the query exists and cannot be read.\<close>

theorem getCached_counterexample:
  "getCached (js ''a'') (fresh_world\<lparr>cache := Dir [(''YQ==.txt'', Dir [])]\<rparr>) = Inl EISDIR"
  by (simp add: getCached_def pathExists_def readFile_def cache_file_a fresh_world_def
      NAME_MAX_def)

text \<open>
  C8 fails on the code. The base64 alphabet contains \<open>/\<close>: the key of the query
  \<open>login?\<close> is \<open>bG9naW4/\<close>, its cache file is \<open>.txt\<close> inside a directory \<open>bG9naW4\<close>
  that nothing creates, and \<open>setCached\<close> throws ENOENT.
\<close>

theorem cache_key_not_filesystem_safe:
  "base64 (utf8_encode (js ''login?'')) = ''bG9naW4/''
   \<and> cache_file (js ''login?'') = [''bG9naW4'', ''.txt'']
   \<and> setCached (js ''login?'') data fresh_world = Inl ENOENT"
proof -
  have b: "base64 (utf8_encode (js ''login?'')) = ''bG9naW4/''"
    by (simp add: js_def utf8_encode_def utf8_bytes_def is_surrogate_def
        is_high_surrogate_def is_low_surrogate_def b64_char_def b64_alphabet_def)
  have key: "cache_file (js ''login?'') = [''bG9naW4'', ''.txt'']"
    by (simp add: cache_file_def b path_join_def)
  show ?thesis
    by (simp add: b key setCached_def fresh_world_def NAME_MAX_def)
qed

section \<open>Properties of the retrying search\<close>

lemma has_http_scheme_search_url: "has_http_scheme (search_url e)"
  by (simp add: has_http_scheme_def search_url_def js_def ascii_lower_def)

lemma search_try_sent:
  assumes "encodeURIComponent query = Some e"
  shows "search_try query w =
    ((case web w (length (fetched w)) (search_url e) of
        Threw \<Rightarrow> Caught
      | Html links cs \<Rightarrow> if links \<noteq> [] then Return (take 5 links) else Fallthrough
      | Hangs \<Rightarrow> Never),
     w\<lparr>fetched := fetched w @ [search_url e]\<rparr>)"
  using assms
  by (simp add: search_try_def fetchWithTimeout_def has_http_scheme_search_url
      split: response.splits)

text \<open>
  The attempts \<open>i\<close> to \<open>k - 1\<close> end without links: the loop reaches the index \<open>k\<close>, one
  request later for each of them.
\<close>

lemma fetchDuckDuckGo_from_skip:
  assumes enc: "encodeURIComponent query = Some e"
    and ik: "i \<le> k" and kr: "k \<le> Suc retries"
    and none: "\<forall>j. i \<le> j \<and> j < k \<longrightarrow>
      no_links (web w (length (fetched w) + (j - i)) (search_url e))"
  shows "fetchDuckDuckGo_from i query retries w =
    fetchDuckDuckGo_from k query retries
      (w\<lparr>fetched := fetched w @ replicate (k - i) (search_url e),
         logged := logged w @
           (if i < k \<and> k = Suc retries \<and>
               web w (length (fetched w) + (retries - i)) (search_url e) = Threw
            then [SearchFailed] else [])\<rparr>)"
  using ik none
proof (induction "k - i" arbitrary: i w)
  case 0
  then have "k = i" by simp
  then show ?case by simp
next
  case (Suc d)
  then have lt: "i < k" and d: "d = k - Suc i" by simp_all
  with kr have le: "i \<le> retries" by simp
  let ?w1 = "w\<lparr>fetched := fetched w @ [search_url e]\<rparr>"
  let ?r = "web w (length (fetched w)) (search_url e)"
  from Suc.prems(2) lt have r0: "no_links ?r"
    by (metis add.right_neutral diff_self_eq_0 order_refl)
  have rep: "replicate (k - i) (search_url e) = search_url e # replicate (k - Suc i) (search_url e)"
    using lt by (cases "k - i") (simp_all add: d)
  show ?case
  proof (cases "i = retries")
    case True
    with lt kr have k: "k = Suc retries" by simp
    have step: "fetchDuckDuckGo_from i query retries w =
        fetchDuckDuckGo_from (Suc i) query retries
          (if ?r = Threw then log SearchFailed ?w1 else ?w1)"
      using r0 True
      by (subst fetchDuckDuckGo_from.simps)
         (simp add: search_try_sent [OF enc] no_links_def split: response.splits)
    show ?thesis
      unfolding step using True k by (simp add: log_def)
  next
    case False
    with le have lt': "Suc i \<le> retries" by simp
    have step: "fetchDuckDuckGo_from i query retries w =
        fetchDuckDuckGo_from (Suc i) query retries ?w1"
      using r0 False le
      by (subst fetchDuckDuckGo_from.simps)
         (simp add: search_try_sent [OF enc] no_links_def split: response.splits)
    have idx: "\<And>j. Suc i \<le> j \<Longrightarrow>
        length (fetched ?w1) + (j - Suc i) = length (fetched w) + (j - i)"
      by auto
    have none': "\<forall>j. Suc i \<le> j \<and> j < k \<longrightarrow>
        no_links (web ?w1 (length (fetched ?w1) + (j - Suc i)) (search_url e))"
    proof (intro allI impI)
      fix j assume j: "Suc i \<le> j \<and> j < k"
      with Suc.prems(2) have "no_links (web w (length (fetched w) + (j - i)) (search_url e))"
        by simp
      with idx [of j] j
      show "no_links (web ?w1 (length (fetched ?w1) + (j - Suc i)) (search_url e))"
        by simp
    qed
    from lt have "Suc i \<le> k" by simp
    note ih = Suc.hyps(1) [OF d this none']
    have last: "web ?w1 (length (fetched ?w1) + (retries - Suc i)) (search_url e) =
        web w (length (fetched w) + (retries - i)) (search_url e)"
      using idx [of retries] lt' by simp
    have c: "(Suc i < k \<and> k = Suc retries \<and>
          web ?w1 (length (fetched ?w1) + (retries - Suc i)) (search_url e) = Threw) =
        (i < k \<and> k = Suc retries \<and>
          web w (length (fetched w) + (retries - i)) (search_url e) = Threw)"
      unfolding last using lt lt' by auto
    show ?thesis
      unfolding step ih c by (simp add: rep)
  qed
qed

lemma fetchDuckDuckGo_from_no_links:
  assumes enc: "encodeURIComponent query = Some e"
    and none: "\<forall>k \<le> retries. no_links (web w (length (fetched w) + k) (search_url e))"
  shows "fetchDuckDuckGo_from 0 query retries w =
    (Some [], w\<lparr>fetched := fetched w @ replicate (Suc retries) (search_url e),
           logged := logged w @
             (if web w (length (fetched w) + retries) (search_url e) = Threw
              then [SearchFailed] else [])\<rparr>)"
proof -
  from none have "\<forall>j. 0 \<le> j \<and> j < Suc retries \<longrightarrow>
      no_links (web w (length (fetched w) + (j - 0)) (search_url e))"
    by simp
  from fetchDuckDuckGo_from_skip [OF enc _ _ this]
  show ?thesis by (simp add: fetchDuckDuckGo_from.simps [of "Suc retries"])
qed

lemma fetchDuckDuckGo_from_first_links:
  assumes enc: "encodeURIComponent query = Some e"
    and kr: "k \<le> retries"
    and some: "links_of (web w (length (fetched w) + k) (search_url e)) \<noteq> []"
    and none: "\<forall>j < k. no_links (web w (length (fetched w) + j) (search_url e))"
  shows "fetchDuckDuckGo_from 0 query retries w =
    (Some (take 5 (links_of (web w (length (fetched w) + k) (search_url e)))),
     w\<lparr>fetched := fetched w @ replicate (Suc k) (search_url e)\<rparr>)"
proof -
  from none have n: "\<forall>j. 0 \<le> j \<and> j < k \<longrightarrow>
      no_links (web w (length (fetched w) + (j - 0)) (search_url e))"
    by simp
  from kr have k: "k \<le> Suc retries" by simp
  from some obtain links cs where
    r: "web w (length (fetched w) + k) (search_url e) = Html links cs" and l: "links \<noteq> []"
    by (cases "web w (length (fetched w) + k) (search_url e)") (auto simp: links_of_def)
  have rep: "replicate k (search_url e) @ [search_url e] = search_url e # replicate k (search_url e)"
    by (simp add: replicate_append_same)
  show ?thesis
    unfolding fetchDuckDuckGo_from_skip [OF enc _ k n, simplified]
    using kr r l
    by (subst fetchDuckDuckGo_from.simps)
       (simp add: search_try_sent [OF enc] links_of_def rep)
qed

lemma fetchDuckDuckGo_from_hangs:
  assumes enc: "encodeURIComponent query = Some e"
    and kr: "k \<le> retries"
    and hangs: "web w (length (fetched w) + k) (search_url e) = Hangs"
    and none: "\<forall>j < k. no_links (web w (length (fetched w) + j) (search_url e))"
  shows "fetchDuckDuckGo_from 0 query retries w =
    (None, w\<lparr>fetched := fetched w @ replicate (Suc k) (search_url e)\<rparr>)"
proof -
  from none have n: "\<forall>j. 0 \<le> j \<and> j < k \<longrightarrow>
      no_links (web w (length (fetched w) + (j - 0)) (search_url e))"
    by simp
  from kr have k: "k \<le> Suc retries" by simp
  have rep: "replicate k (search_url e) @ [search_url e] = search_url e # replicate k (search_url e)"
    by (simp add: replicate_append_same)
  show ?thesis
    unfolding fetchDuckDuckGo_from_skip [OF enc _ k n, simplified]
    using kr hangs
    by (subst fetchDuckDuckGo_from.simps)
       (simp add: search_try_sent [OF enc] rep)
qed

lemma fetchDuckDuckGo_from_URIError:
  assumes enc: "encodeURIComponent query = None"
  shows "fetchDuckDuckGo_from i query retries w =
    (Some [], if i \<le> retries then log SearchFailed w else w)"
proof (induction "Suc retries - i" arbitrary: i w)
  case 0
  then have "\<not> i \<le> retries" by simp
  then show ?case by (simp add: fetchDuckDuckGo_from.simps)
next
  case (Suc d)
  then have le: "i \<le> retries" and d: "d = Suc retries - Suc i" by simp_all
  have t: "\<And>w. search_try query w = (Caught, w)"
    by (simp add: search_try_def enc)
  show ?case
  proof (cases "i = retries")
    case True
    then show ?thesis
      by (subst fetchDuckDuckGo_from.simps)
         (simp add: t fetchDuckDuckGo_from.simps [of "Suc retries"])
  next
    case False
    with le have "Suc i \<le> retries" by simp
    with Suc.hyps(1) [OF d, of w] False le show ?thesis
      by (subst fetchDuckDuckGo_from.simps) (simp add: t)
  qed
qed

lemma encodeURIComponent_login: "encodeURIComponent (js ''login'') = Some (js ''login'')"
  by (simp add: encodeURIComponent_def isWellFormed_def js_def is_surrogate_def
      is_high_surrogate_def is_low_surrogate_def utf8_encode_def utf8_bytes_def
      uri_escape_def uri_unreserved_def)

text \<open>
  C6, as amended. For a well-formed query, \<open>fetchDuckDuckGo\<close> sends at most
  \<open>retries + 1\<close> requests, all to the result page of the query. It returns at the
  first attempt that yields links, with the first 5 of them in document order, having
  sent no further request and logged nothing; attempts that throw or yield no link are
  followed by the next one. When no attempt yields a link it returns the empty
  sequence after \<open>retries + 1\<close> requests, and it logs one failure message, after the
  last attempt, exactly when the last attempt threw: when the last attempt delivered a
  page without result links nothing is logged. (An attempt ends without links when it
  throws or delivers a page without result links; when the body of a response never
  ends, the attempt does not end and the search does not return.)
\<close>

theorem fetchDuckDuckGo_retry:
  assumes enc: "encodeURIComponent query = Some e"
  shows
    "(\<exists>m \<le> retries + 1.
        fetched (snd (fetchDuckDuckGo query retries w)) =
          fetched w @ replicate m (search_url e))
     \<and> (\<forall>k \<le> retries.
          links_of (search_response e w k) \<noteq> [] \<and>
          (\<forall>j < k. no_links (search_response e w j)) \<longrightarrow>
          fetchDuckDuckGo query retries w =
            (Some (take 5 (links_of (search_response e w k))),
             w\<lparr>fetched := fetched w @ replicate (k + 1) (search_url e)\<rparr>))
     \<and> ((\<forall>k \<le> retries. no_links (search_response e w k)) \<longrightarrow>
          fetchDuckDuckGo query retries w =
            (Some [], w\<lparr>fetched := fetched w @ replicate (retries + 1) (search_url e),
                   logged := logged w @
                     (if search_response e w retries = Threw then [SearchFailed] else [])\<rparr>))
     \<and> (\<forall>k \<le> retries.
          search_response e w k = Hangs \<and>
          (\<forall>j < k. no_links (search_response e w j)) \<longrightarrow>
          fetchDuckDuckGo query retries w =
            (None, w\<lparr>fetched := fetched w @ replicate (k + 1) (search_url e)\<rparr>))"
proof -
  have first: "fetchDuckDuckGo query retries w =
            (Some (take 5 (links_of (search_response e w k))),
             w\<lparr>fetched := fetched w @ replicate (k + 1) (search_url e)\<rparr>)"
    if "k \<le> retries" "links_of (search_response e w k) \<noteq> []"
       "\<forall>j < k. no_links (search_response e w j)" for k
    using fetchDuckDuckGo_from_first_links [OF enc, of k retries w] that
    by (simp add: fetchDuckDuckGo_def search_response_def)
  have hangs: "fetchDuckDuckGo query retries w =
            (None, w\<lparr>fetched := fetched w @ replicate (k + 1) (search_url e)\<rparr>)"
    if "k \<le> retries" "search_response e w k = Hangs"
       "\<forall>j < k. no_links (search_response e w j)" for k
    using fetchDuckDuckGo_from_hangs [OF enc, of k retries w] that
    by (simp add: fetchDuckDuckGo_def search_response_def)
  have never: "fetchDuckDuckGo query retries w =
            (Some [], w\<lparr>fetched := fetched w @ replicate (retries + 1) (search_url e),
                   logged := logged w @
                     (if search_response e w retries = Threw then [SearchFailed] else [])\<rparr>)"
    if "\<forall>k \<le> retries. no_links (search_response e w k)"
    using fetchDuckDuckGo_from_no_links [OF enc, of retries w] that
    by (simp add: fetchDuckDuckGo_def search_response_def)
  have bound: "\<exists>m \<le> retries + 1.
        fetched (snd (fetchDuckDuckGo query retries w)) =
          fetched w @ replicate m (search_url e)"
  proof (cases "\<forall>k \<le> retries. no_links (search_response e w k)")
    case True
    from never [OF True] show ?thesis by auto
  next
    case False
    define k where "k = (LEAST k. \<not> no_links (search_response e w k))"
    from False obtain k0 where k0: "k0 \<le> retries" "\<not> no_links (search_response e w k0)"
      by auto
    have some: "\<not> no_links (search_response e w k)"
      unfolding k_def using k0(2) by (rule LeastI)
    have "k \<le> k0" unfolding k_def using k0(2) by (rule Least_le)
    with k0 have kr: "k \<le> retries" by simp
    have none: "\<forall>j < k. no_links (search_response e w j)"
      unfolding k_def using not_less_Least by blast
    from some have "links_of (search_response e w k) \<noteq> [] \<or> search_response e w k = Hangs"
      by (cases "search_response e w k") (simp_all add: no_links_def links_of_def)
    then show ?thesis
    proof
      assume "links_of (search_response e w k) \<noteq> []"
      from first [OF kr this none] kr show ?thesis
        by (intro exI [of _ "k + 1"]) simp
    next
      assume "search_response e w k = Hangs"
      from hangs [OF kr this none] kr show ?thesis
        by (intro exI [of _ "k + 1"]) simp
    qed
  qed
  from bound first never hangs show ?thesis by blast
qed

text \<open>
  The retry bound of the specification: a search that fails twice and succeeds at the
  third attempt returns the (first five) links of that attempt; one that fails three
  times returns nothing and logs one message.
\<close>

theorem fetchDuckDuckGo_retry_witness:
  "fetchDuckDuckGo (js ''login'') 2 (fresh_world\<lparr>web := third_time_lucky\<rparr>) =
     (Some (take 5 six_links),
      fresh_world\<lparr>web := third_time_lucky, fetched := replicate 3 (search_url (js ''login''))\<rparr>)
   \<and> fetchDuckDuckGo (js ''login'') 2 fresh_world =
     (Some [], fresh_world\<lparr>fetched := replicate 3 (search_url (js ''login'')),
                      logged := [SearchFailed]\<rparr>)"
proof -
  let ?w = "fresh_world\<lparr>web := third_time_lucky\<rparr>"
  have third: "(2::nat) \<le> 2 \<and> links_of (search_response (js ''login'') ?w 2) \<noteq> [] \<and>
      (\<forall>j < 2. no_links (search_response (js ''login'') ?w j))"
    by (simp add: search_response_def third_time_lucky_def links_of_def six_links_def
        fresh_world_def no_links_def)
  have never: "\<forall>k \<le> 2. no_links (search_response (js ''login'') fresh_world k)"
    by (simp add: search_response_def fresh_world_def offline_def no_links_def)
  from fetchDuckDuckGo_retry [OF encodeURIComponent_login, of 2 ?w] third
  have a: "fetchDuckDuckGo (js ''login'') 2 ?w =
     (Some (take 5 (links_of (search_response (js ''login'') ?w 2))),
      ?w\<lparr>fetched := fetched ?w @ replicate (2 + 1) (search_url (js ''login''))\<rparr>)"
    by blast
  from fetchDuckDuckGo_retry [OF encodeURIComponent_login, of 2 fresh_world] never
  have b: "fetchDuckDuckGo (js ''login'') 2 fresh_world =
     (Some [], fresh_world\<lparr>fetched := fetched fresh_world @ replicate (2 + 1) (search_url (js ''login'')),
        logged := logged fresh_world @
          (if search_response (js ''login'') fresh_world 2 = Threw then [SearchFailed] else [])\<rparr>)"
    by blast
  have a': "fetchDuckDuckGo (js ''login'') 2 ?w =
     (Some (take 5 six_links),
      fresh_world\<lparr>web := third_time_lucky, fetched := replicate 3 (search_url (js ''login''))\<rparr>)"
    unfolding a
    by (simp add: search_response_def third_time_lucky_def links_of_def fresh_world_def)
  have b': "fetchDuckDuckGo (js ''login'') 2 fresh_world =
     (Some [], fresh_world\<lparr>fetched := replicate 3 (search_url (js ''login'')),
                      logged := [SearchFailed]\<rparr>)"
    unfolding b
    by (simp add: search_response_def fresh_world_def offline_def)
  from a' b' show ?thesis by simp
qed

text \<open>
  C6 as stated fails when the attempts deliver pages without result links: all three
  attempts yield zero links and no failure message is logged.
\<close>

theorem fetchDuckDuckGo_counterexample:
  "fetchDuckDuckGo (js ''login'') 2 (fresh_world\<lparr>web := blank_pages\<rparr>) =
     (Some [], fresh_world\<lparr>web := blank_pages, fetched := replicate 3 (search_url (js ''login''))\<rparr>)
   \<and> logged (snd (fetchDuckDuckGo (js ''login'') 2 (fresh_world\<lparr>web := blank_pages\<rparr>))) = []"
proof -
  have t: "\<And>w. web w = blank_pages \<Longrightarrow> search_try (js ''login'') w =
      (Fallthrough, w\<lparr>fetched := fetched w @ [search_url (js ''login'')]\<rparr>)"
    by (simp add: search_try_sent [OF encodeURIComponent_login] blank_pages_def)
  have "fetchDuckDuckGo (js ''login'') 2 (fresh_world\<lparr>web := blank_pages\<rparr>) =
     (Some [], fresh_world\<lparr>web := blank_pages, fetched := replicate 3 (search_url (js ''login''))\<rparr>)"
    by (simp add: fetchDuckDuckGo_def fetchDuckDuckGo_from.simps t fresh_world_def
        numeral_3_eq_3)
  then show ?thesis by (simp add: fresh_world_def)
qed

section \<open>What the network helpers leave unchanged\<close>

lemma later_iff:
  "later w w' =
     (cache w' = cache w \<and> web w' = web w \<and> (\<exists>rest. fetched w' = fetched w @ rest))"
proof -
  have "(take (length xs) ys = xs) = (\<exists>rest. ys = xs @ rest)" for xs ys :: "jsstring list"
    by (metis append_eq_conv_conj append_take_drop_id)
  then show ?thesis by (simp add: later_def)
qed

lemma later_refl: "later w w"
  by (simp add: later_def)

lemma later_trans: "later w w' \<Longrightarrow> later w' w'' \<Longrightarrow> later w w''"
  by (auto simp: later_iff)

lemma later_log: "later w (log msg w)"
  by (simp add: later_def log_def)

lemma fetchWithTimeout_later: "later w (snd (fetchWithTimeout url w))"
  by (simp add: fetchWithTimeout_def later_def split: option.splits)

lemma search_try_later: "later w (snd (search_try query w))"
proof (cases "encodeURIComponent query")
  case None
  then show ?thesis by (simp add: search_try_def later_refl)
next
  case (Some q)
  from fetchWithTimeout_later [of w "Some (search_url q)"]
  show ?thesis
    by (cases "fetchWithTimeout (Some (search_url q)) w")
       (simp add: search_try_def Some split: response.splits)
qed

lemma fetchDuckDuckGo_from_later:
  "later w (snd (fetchDuckDuckGo_from i query retries w))"
proof (induction "Suc retries - i" arbitrary: i w)
  case 0
  then have "\<not> i \<le> retries" by simp
  then show ?case by (simp add: fetchDuckDuckGo_from.simps later_refl)
next
  case (Suc d)
  then have le: "i \<le> retries" and d: "d = Suc retries - Suc i" by simp_all
  let ?w1 = "snd (search_try query w)"
  have l1: "later w ?w1" by (rule search_try_later)
  show ?case
  proof (cases "fst (search_try query w)")
    case (Return links)
    with le l1 show ?thesis
      by (subst fetchDuckDuckGo_from.simps) simp
  next
    case Fallthrough
    from later_trans [OF l1 Suc.hyps(1) [OF d, of ?w1]] Fallthrough le show ?thesis
      by (subst fetchDuckDuckGo_from.simps) simp
  next
    case Caught
    let ?w2 = "if i = retries then log SearchFailed ?w1 else ?w1"
    have "later w ?w2"
      using l1 later_trans [OF l1 later_log] by simp
    from later_trans [OF this Suc.hyps(1) [OF d, of ?w2]] Caught le show ?thesis
      by (subst fetchDuckDuckGo_from.simps) simp
  next
    case Never
    with le l1 show ?thesis
      by (subst fetchDuckDuckGo_from.simps) simp
  qed
qed

lemma fetchDuckDuckGo_later:
  "fetchDuckDuckGo query retries w = (us, w1) \<Longrightarrow> later w w1"
  using fetchDuckDuckGo_from_later [of w 0 query retries]
  by (simp add: fetchDuckDuckGo_def)

text \<open>The first request of a search goes to the result page of the query.\<close>

lemma fetchDuckDuckGo_first_request:
  assumes enc: "encodeURIComponent query = Some e"
    and run: "fetchDuckDuckGo query retries w = (us, w1)"
  shows "\<exists>rest. fetched w1 = fetched w @ search_url e # rest"
proof -
  let ?w1 = "w\<lparr>fetched := fetched w @ [search_url e]\<rparr>"
  have "later ?w1 w1"
  proof (cases "web w (length (fetched w)) (search_url e)")
    case Threw
    let ?w2 = "if 0 = retries then log SearchFailed ?w1 else ?w1"
    have "later ?w1 ?w2" by (simp add: later_log later_refl)
    from later_trans [OF this fetchDuckDuckGo_from_later [of ?w2 "Suc 0" query retries]]
      run Threw
    show ?thesis
      by (simp add: fetchDuckDuckGo_def fetchDuckDuckGo_from.simps [of 0]
          search_try_sent [OF enc] split: if_splits)
  next
    case (Html links cs)
    from fetchDuckDuckGo_from_later [of ?w1 "Suc 0" query retries] run Html
    show ?thesis
      by (simp add: fetchDuckDuckGo_def fetchDuckDuckGo_from.simps [of 0]
          search_try_sent [OF enc] later_refl split: if_splits)
  next
    case Hangs
    with run show ?thesis
      by (simp add: fetchDuckDuckGo_def fetchDuckDuckGo_from.simps [of 0]
          search_try_sent [OF enc] later_refl)
  qed
  then show ?thesis by (auto simp: later_iff)
qed

section \<open>The invariant of the fan-out\<close>

lemma page_snippet_later:
  assumes "later w w'" and "page_snippet w url s"
  shows "page_snippet w' url s"
proof -
  from assms(1) obtain rest where f: "fetched w' = fetched w @ rest" and wb: "web w' = web w"
    by (auto simp: later_iff)
  from assms(2) obtain n where n: "n < length (fetched w)" "url = Some (fetched w ! n)"
    and p: "case web w n (fetched w ! n) of
           Html links cs \<Rightarrow> cs \<noteq> [] \<and> s = snippet_of cs | _ \<Rightarrow> False"
    by (auto simp: page_snippet_def)
  from n(1) have nth: "fetched w' ! n = fetched w ! n" and lt: "n < length (fetched w')"
    by (simp_all add: f nth_append)
  show ?thesis
    unfolding page_snippet_def
    using n(2) p lt by (intro bexI [of _ n]) (simp_all add: nth wb)
qed

lemma task_ok_later:
  assumes "later w w'" and "task_ok w url t"
  shows "task_ok w' url t"
proof (cases t)
  case (Awaiting i r)
  from assms(1) obtain rest where f: "fetched w' = fetched w @ rest" and wb: "web w' = web w"
    by (auto simp: later_iff)
  show ?thesis
  proof (cases "r = Threw")
    case True
    with Awaiting show ?thesis by (simp add: task_ok_def)
  next
    case False
    with assms(2) Awaiting obtain n where n: "n < length (fetched w)"
      "url = Some (fetched w ! n)" "r = web w n (fetched w ! n)"
      by (auto simp: task_ok_def)
    from n(1) have nth: "fetched w' ! n = fetched w ! n" and lt: "n < length (fetched w')"
      by (simp_all add: f nth_append)
    have "\<exists>n \<in> {..<length (fetched w')}. url = Some (fetched w' ! n) \<and> r = web w' n (fetched w' ! n)"
      using n(2,3) lt by (intro bexI [of _ n]) (simp_all add: nth wb)
    with Awaiting show ?thesis by (simp add: task_ok_def)
  qed
next
  case (Settled s)
  with assms(2) page_snippet_later [OF assms(1)] show ?thesis
    by (auto simp: task_ok_def)
qed

lemma fetchWithTimeout_ok:
  assumes "fetchWithTimeout url w = (r, w')"
  shows "task_ok w' url (Awaiting i r)"
proof (cases "r = Threw")
  case True
  then show ?thesis by (simp add: task_ok_def)
next
  case False
  with assms obtain u where u: "url = Some u" "has_http_scheme u"
    and r: "r = web w (length (fetched w)) u" and w': "w' = w\<lparr>fetched := fetched w @ [u]\<rparr>"
    by (auto simp: fetchWithTimeout_def split: option.splits if_splits)
  have "\<exists>n \<in> {..<length (fetched w')}. url = Some (fetched w' ! n) \<and> r = web w' n (fetched w' ! n)"
    by (intro bexI [of _ "length (fetched w)"]) (simp_all add: u r w')
  then show ?thesis by (simp add: task_ok_def)
qed

lemma fetchCodeSnippet_from_ok:
  assumes "fetchCodeSnippet_from i url retries w = (t, w')"
  shows "later w w' \<and> task_ok w' url t"
proof (cases "i \<le> retries")
  case True
  obtain r w1 where f: "fetchWithTimeout url w = (r, w1)"
    by (cases "fetchWithTimeout url w")
  with assms True have "t = Awaiting i r" "w' = w1"
    by (simp_all add: fetchCodeSnippet_from_def)
  with fetchWithTimeout_ok [OF f, of i] fetchWithTimeout_later [of w url] f
  show ?thesis by simp
next
  case False
  with assms show ?thesis
    by (auto simp: fetchCodeSnippet_from_def later_refl task_ok_def)
qed

lemma fetchCodeSnippet_resume_ok:
  assumes ok: "task_ok w url t"
    and run: "fetchCodeSnippet_resume url retries t w = (t', w')"
  shows "later w w' \<and> task_ok w' url t'"
proof (cases t)
  case (Settled s)
  with ok run show ?thesis by (auto simp: later_refl)
next
  case (Awaiting i r)
  show ?thesis
  proof (cases "snippet_try r")
    case (Return s)
    then obtain links cs where r: "r = Html links cs" and cs: "cs \<noteq> []"
      and s: "s = snippet_of cs"
      by (auto simp: snippet_try_def snippet_of_def split: response.splits if_splits)
    from ok Awaiting r obtain n where n: "n < length (fetched w)"
      "url = Some (fetched w ! n)" "web w n (fetched w ! n) = Html links cs"
      by (auto simp: task_ok_def)
    have "page_snippet w url s"
      unfolding page_snippet_def
      using n cs s by (intro bexI [of _ n]) simp_all
    moreover have "length s \<le> 5000" by (simp add: s snippet_of_def)
    moreover from run Awaiting Return have "t' = Settled s" "w' = w" by simp_all
    ultimately show ?thesis by (simp add: later_refl task_ok_def)
  next
    case Fallthrough
    with run Awaiting have "fetchCodeSnippet_from (Suc i) url retries w = (t', w')" by simp
    from fetchCodeSnippet_from_ok [OF this] show ?thesis .
  next
    case Caught
    let ?w1 = "if i = retries then log (SnippetFailed url) w else w"
    have l: "later w ?w1" by (simp add: later_log later_refl)
    from run Awaiting Caught have "fetchCodeSnippet_from (Suc i) url retries ?w1 = (t', w')"
      by simp
    from fetchCodeSnippet_from_ok [OF this] later_trans [OF l] show ?thesis by blast
  next
    case Never
    with run Awaiting ok show ?thesis by (auto simp: later_refl)
  qed
qed

lemma list_all2_task_ok_later:
  "later w w' \<Longrightarrow> list_all2 (task_ok w) urls ts \<Longrightarrow> list_all2 (task_ok w') urls ts"
  by (erule list_all2_mono) (rule task_ok_later)

lemma fetchCodeSnippets_ok:
  "fetchCodeSnippets urls w = (ts, w') \<Longrightarrow> later w w' \<and> list_all2 (task_ok w') urls ts"
proof (induction urls arbitrary: w ts w')
  case Nil
  then show ?case by (auto simp: later_refl)
next
  case (Cons url urls)
  obtain t w1 where a: "fetchCodeSnippet url 1 w = (t, w1)"
    by (cases "fetchCodeSnippet url 1 w")
  obtain ts1 w2 where b: "fetchCodeSnippets urls w1 = (ts1, w2)"
    by (cases "fetchCodeSnippets urls w1")
  from Cons.prems a b have eq: "ts = t # ts1" "w' = w2" by simp_all
  from a have "fetchCodeSnippet_from 0 url 1 w = (t, w1)" by (simp add: fetchCodeSnippet_def)
  from fetchCodeSnippet_from_ok [OF this] have l1: "later w w1" and ok: "task_ok w1 url t"
    by simp_all
  from Cons.IH [OF b] have l2: "later w1 w2" and oks: "list_all2 (task_ok w2) urls ts1"
    by simp_all
  from later_trans [OF l1 l2] task_ok_later [OF l2 ok] oks eq show ?case by simp
qed

lemma deliver_ok:
  assumes oks: "list_all2 (task_ok w) urls ts"
    and run: "deliver urls j (ts, w) = (ts', w')"
  shows "later w w' \<and> list_all2 (task_ok w') urls ts'"
proof (cases "j < length ts")
  case False
  with run oks show ?thesis by (auto simp: deliver_def later_refl)
next
  case True
  obtain t w1 where r: "fetchCodeSnippet_resume (urls ! j) 1 (ts ! j) w = (t, w1)"
    by (cases "fetchCodeSnippet_resume (urls ! j) 1 (ts ! j) w")
  with run True have eq: "ts' = ts[j := t]" "w' = w1" by (simp_all add: deliver_def)
  from oks True have "task_ok w (urls ! j) (ts ! j)"
    by (simp add: list_all2_conv_all_nth)
  from fetchCodeSnippet_resume_ok [OF this r] have l: "later w w1"
    and ok: "task_ok w1 (urls ! j) t"
    by simp_all
  from list_all2_task_ok_later [OF l oks] have "list_all2 (task_ok w1) urls ts" .
  then have "list_all2 (task_ok w1) (urls[j := urls ! j]) (ts[j := t])"
    using ok by (rule list_all2_update_cong)
  with l eq show ?thesis by simp
qed

lemma fold_deliver_ok:
  "list_all2 (task_ok w) urls ts \<Longrightarrow> fold (deliver urls) schedule (ts, w) = (ts', w') \<Longrightarrow>
   later w w' \<and> list_all2 (task_ok w') urls ts'"
proof (induction schedule arbitrary: ts w)
  case Nil
  then show ?case by (auto simp: later_refl)
next
  case (Cons j schedule)
  obtain ts1 w1 where d: "deliver urls j (ts, w) = (ts1, w1)"
    by (cases "deliver urls j (ts, w)")
  from deliver_ok [OF Cons.prems(1) d] have l: "later w w1"
    and oks: "list_all2 (task_ok w1) urls ts1"
    by simp_all
  from Cons.prems(2) d have "fold (deliver urls) schedule (ts1, w1) = (ts', w')" by simp
  from Cons.IH [OF oks this] later_trans [OF l] show ?case by blast
qed

lemma fan_out_ok:
  assumes "fan_out schedule urls w = (ts, w')"
  shows "later w w' \<and> list_all2 (task_ok w') urls ts"
proof -
  obtain ts0 w0 where s: "fetchCodeSnippets urls w = (ts0, w0)"
    by (cases "fetchCodeSnippets urls w")
  from fetchCodeSnippets_ok [OF s] have l: "later w w0"
    and oks: "list_all2 (task_ok w0) urls ts0"
    by simp_all
  from assms s have "fold (deliver urls) schedule (ts0, w0) = (ts, w')"
    by (simp add: fan_out_def)
  from fold_deliver_ok [OF oks this] later_trans [OF l] show ?thesis by blast
qed

section \<open>Promise.all and the selection\<close>

lemma Promise_all_Settled: "Promise_all (map Settled ss) = Some ss"
  by (simp add: Promise_all_def list_all_iff comp_def)

lemma Promise_all_Some:
  assumes "Promise_all ts = Some ss"
  shows "ts = map Settled ss"
proof -
  from assms have a: "\<forall>t \<in> set ts. returned t \<noteq> None"
    and ss: "ss = map (\<lambda>t. the (returned t)) ts"
    by (auto simp: Promise_all_def list_all_iff split: if_splits)
  have "Settled (the (returned t)) = t" if "t \<in> set ts" for t
    using a that by (cases t) auto
  then have "map (\<lambda>t. Settled (the (returned t))) ts = ts"
    by (intro map_idI) simp
  then show ?thesis by (simp add: ss comp_def)
qed

lemma find_first:
  "i < length xs \<Longrightarrow> P (xs ! i) \<Longrightarrow> \<forall>j < i. \<not> P (xs ! j) \<Longrightarrow> find P xs = Some (xs ! i)"
proof (induction xs arbitrary: i)
  case Nil
  then show ?case by simp
next
  case (Cons x xs)
  show ?case
  proof (cases i)
    case 0
    with Cons.prems show ?thesis by simp
  next
    case (Suc k)
    with Cons.prems have "\<not> P x" by auto
    moreover from Suc Cons.prems have "find P xs = Some (xs ! k)"
      by (intro Cons.IH) auto
    ultimately show ?thesis using Suc by simp
  qed
qed

text \<open>The texts that a fan-out returns: at most 5000 code units, empty or from a page.\<close>

lemma fan_out_snippets:
  assumes run: "fan_out schedule urls w = (map Settled ss, w')"
  shows "length ss = length urls"
    and "\<forall>i < length ss. length (ss ! i) \<le> 5000 \<and> (ss ! i = [] \<or> page_snippet w' (urls ! i) (ss ! i))"
proof -
  from fan_out_ok [OF run] have oks: "list_all2 (task_ok w') urls (map Settled ss)" by simp
  then show len: "length ss = length urls" by (auto dest: list_all2_lengthD)
  show "\<forall>i < length ss. length (ss ! i) \<le> 5000 \<and> (ss ! i = [] \<or> page_snippet w' (urls ! i) (ss ! i))"
  proof (intro allI impI)
    fix i assume i: "i < length ss"
    with oks len have "task_ok w' (urls ! i) (map Settled ss ! i)"
      by (simp add: list_all2_conv_all_nth)
    with i show "length (ss ! i) \<le> 5000 \<and> (ss ! i = [] \<or> page_snippet w' (urls ! i) (ss ! i))"
      by (simp add: task_ok_def)
  qed
qed

section \<open>The cache invariant\<close>

lemma lookup_valid_entries:
  "valid_entries root \<Longrightarrow> lookup root p = Inr (File t) \<Longrightarrow> 200 < length t \<and> length t \<le> 5000"
proof (induction root p rule: lookup.induct)
  case (1 n)
  then show ?case by simp
next
  case (2 t' c cs)
  then show ?case by simp
next
  case (3 es c cs)
  from "3.prems"(2) obtain m where m: "map_of es c = Some m" and l: "lookup m cs = Inr (File t)"
    and le: "\<not> NAME_MAX < length c"
    by (auto split: if_splits option.splits)
  from m have "(c, m) \<in> set es" by (rule map_of_SomeD)
  with "3.prems"(1) have "valid_entries m" by auto
  from "3.IH" [OF le m this l] show ?case .
qed

lemma put_entry_valid:
  "valid_entries n \<Longrightarrow> \<forall>e \<in> set es. valid_entries (snd e) \<Longrightarrow>
   \<forall>e \<in> set (put_entry c n es). valid_entries (snd e)"
  by (induction c n es rule: put_entry.induct) auto

lemma writeFile_valid_entries:
  "200 < length data \<Longrightarrow> length data \<le> 5000 \<Longrightarrow> valid_entries root \<Longrightarrow>
   writeFile root p data = Inr root' \<Longrightarrow> valid_entries root'"
proof (induction root p data arbitrary: root' rule: writeFile.induct)
  case (1 t d)
  then show ?case by (auto simp: length_toWellFormed)
next
  case (2 es d)
  then show ?case by simp
next
  case (3 t c cs d)
  then show ?case by simp
next
  case (4 es c cs d)
  from "4.prems"(4) have le: "\<not> NAME_MAX < length c" by (auto split: if_splits)
  have vf: "valid_entries (File (toWellFormed d))"
    using "4.prems"(1,2) by (simp add: length_toWellFormed)
  have es: "\<forall>e \<in> set es. valid_entries (snd e)"
    using "4.prems"(3) by simp
  show ?case
  proof (cases "map_of es c")
    case None
    with "4.prems"(4) le have "root' = Dir (put_entry c (File (toWellFormed d)) es)"
      by (auto split: if_splits)
    with put_entry_valid [OF vf es, of c] show ?thesis by simp
  next
    case (Some m)
    with "4.prems"(4) le obtain m' where w: "writeFile m cs d = Inr m'"
      and r: "root' = Dir (put_entry c m' es)"
      by (auto split: sum.splits)
    from Some have "(c, m) \<in> set es" by (rule map_of_SomeD)
    with es have "valid_entries m" by auto
    from "4.IH" [OF le Some "4.prems"(1,2) this w] have "valid_entries m'" .
    from put_entry_valid [OF this es, of c] r show ?thesis by simp
  qed
qed

section \<open>The runs of the orchestrator\<close>

lemma getCached_log: "getCached query (log msg w) = getCached query w"
  by (simp add: getCached_def log_def Let_def)

lemma getCached_cache: "cache w' = cache w \<Longrightarrow> getCached query w' = getCached query w"
  by (simp add: getCached_def Let_def)

lemma truthy_find:
  "truthy (find (\<lambda>s. 200 < length s) xs) = (find (\<lambda>s. 200 < length s) xs \<noteq> None)"
proof (cases "find (\<lambda>s. 200 < length s) xs")
  case None
  then show ?thesis by simp
next
  case (Some v)
  then have "200 < length v" by (auto simp: find_Some_iff)
  then have "v \<noteq> []" by auto
  with Some show ?thesis by simp
qed

text \<open>
  What \<open>fetchCodeFromWeb\<close> does after a cache lookup that does not hit, given what the
  search and the fan-out do.
\<close>

lemma fetchCodeFromWeb_search_pending:
  assumes miss: "getCached description w = Inr cached" "\<not> truthy cached"
    and search: "fetchDuckDuckGo (description @ js '' full project code'') 2 (log Fetching w) =
      (None, w1)"
  shows "fetchCodeFromWeb schedule description w = (Pending, w1)"
  using miss search by (simp add: fetchCodeFromWeb_def getCached_log Let_def)

lemma fetchCodeFromWeb_fan_out:
  assumes miss: "getCached description w = Inr cached" "\<not> truthy cached"
    and search: "fetchDuckDuckGo (description @ js '' full project code'') 2 (log Fetching w) =
      (Some urls, w1)"
    and fan: "fan_out schedule urls w1 = (ts, w2)"
  shows "fetchCodeFromWeb schedule description w =
    (case Promise_all ts of
       None \<Rightarrow> (Pending, w2)
     | Some snippets \<Rightarrow>
         (case find (\<lambda>s. 200 < length s) snippets of
            None \<Rightarrow> (Fulfilled [], w2)
          | Some s \<Rightarrow>
              (case writeFile (cache w) (cache_file description) s of
                 Inl e \<Rightarrow> (Rejected e, w2)
               | Inr root \<Rightarrow> (Fulfilled s, w2\<lparr>cache := root\<rparr>))))"
proof -
  from fetchDuckDuckGo_later [OF search] fan_out_ok [OF fan]
  have c: "cache w2 = cache w" by (simp add: later_def log_def)
  have sc: "setCached description s w2 =
      (case writeFile (cache w) (cache_file description) s of
         Inl e \<Rightarrow> Inl e | Inr root \<Rightarrow> Inr (w2\<lparr>cache := root\<rparr>))" for s
    by (simp add: setCached_def Let_def c)
  have eq: "fetchCodeFromWeb schedule description w =
    (case Promise_all ts of
       None \<Rightarrow> (Pending, w2)
     | Some snippets \<Rightarrow>
         (let validSnippet = find (\<lambda>s. 200 < length s) snippets in
          if truthy validSnippet then
            (case setCached description (the validSnippet) w2 of
               Inl e \<Rightarrow> (Rejected e, w2)
             | Inr w3 \<Rightarrow> (Fulfilled (the validSnippet), w3))
          else (Fulfilled [], w2)))"
    using miss search fan by (simp add: fetchCodeFromWeb_def getCached_log Let_def)
  show ?thesis
  proof (cases "Promise_all ts")
    case None
    with eq show ?thesis by simp
  next
    case (Some snippets)
    show ?thesis
    proof (cases "find (\<lambda>s. 200 < length s) snippets")
      case None
      with eq Some show ?thesis by simp
    next
      case f: (Some s)
      with truthy_find [of snippets] have t: "truthy (find (\<lambda>s. 200 < length s) snippets)"
        by simp
      show ?thesis
        unfolding eq Some using f t
        by (simp add: Let_def sc split: sum.splits)
    qed
  qed
qed

text \<open>The ways in which a call of \<open>fetchCodeFromWeb\<close> ends.\<close>

lemma fetchCodeFromWeb_cases:
  fixes schedule description w
  defines "r \<equiv> fetchCodeFromWeb schedule description w"
  obtains (read_error) e where "getCached description w = Inl e"
      and "r = (Rejected e, log Fetching w)"
    | (hit) t where "getCached description w = Inr (Some t)" and "t \<noteq> []"
      and "r = (Fulfilled t, log UsingCached (log Fetching w))"
    | (pending) w2 where "r = (Pending, w2)"
    | (no_snippet) w2 where "r = (Fulfilled [], w2)" and "later w w2"
    | (write_error) s e w2 where "200 < length s" and "length s \<le> 5000"
      and "writeFile (cache w) (cache_file description) s = Inl e"
      and "r = (Rejected e, w2)"
    | (written) s root w2 where "200 < length s" and "length s \<le> 5000"
      and "writeFile (cache w) (cache_file description) s = Inr root"
      and "r = (Fulfilled s, w2\<lparr>cache := root\<rparr>)" and "later w w2"
      and "\<exists>url. page_snippet w2 url s"
proof (cases "getCached description w")
  case (Inl e)
  then have "r = (Rejected e, log Fetching w)"
    by (simp add: r_def fetchCodeFromWeb_def getCached_log Let_def)
  with Inl show ?thesis by (rule read_error)
next
  case (Inr cached)
  show ?thesis
  proof (cases "truthy cached")
    case True
    then obtain t where t: "cached = Some t" "t \<noteq> []" by (cases cached) auto
    with Inr have "r = (Fulfilled t, log UsingCached (log Fetching w))"
      by (simp add: r_def fetchCodeFromWeb_def getCached_log Let_def)
    with Inr t show ?thesis by (intro hit) simp_all
  next
    case False
    obtain us w1 where s: "fetchDuckDuckGo (description @ js '' full project code'') 2
        (log Fetching w) = (us, w1)"
      by (cases "fetchDuckDuckGo (description @ js '' full project code'') 2 (log Fetching w)")
    from fetchDuckDuckGo_later [OF s] have l1: "later w w1"
      using later_trans [OF later_log] by blast
    show ?thesis
    proof (cases us)
      case None
      from fetchCodeFromWeb_search_pending [OF Inr False s [unfolded None]]
      show ?thesis by (intro pending) (simp add: r_def)
    next
      case (Some urls)
      obtain ts w2 where f: "fan_out schedule urls w1 = (ts, w2)"
        by (cases "fan_out schedule urls w1")
      from fan_out_ok [OF f] have l2: "later w w2" using later_trans [OF l1] by blast
      note run = fetchCodeFromWeb_fan_out [OF Inr False s [unfolded Some] f, folded r_def]
      show ?thesis
      proof (cases "Promise_all ts")
        case None
        with run show ?thesis by (intro pending) simp
      next
        case ss: (Some snippets)
        from Promise_all_Some [OF ss] f
        have f': "fan_out schedule urls w1 = (map Settled snippets, w2)" by simp
        show ?thesis
        proof (cases "find (\<lambda>s. 200 < length s) snippets")
          case None
          with run ss have "r = (Fulfilled [], w2)" by simp
          then show ?thesis using l2 by (rule no_snippet)
        next
          case v: (Some s)
          then have gt: "200 < length s" and "s \<in> set snippets"
            by (auto simp: find_Some_iff)
          then obtain i where "i < length snippets" "snippets ! i = s"
            by (auto simp: in_set_conv_nth)
          with fan_out_snippets(2) [OF f'] gt have le: "length s \<le> 5000"
            and ps: "\<exists>url. page_snippet w2 url s"
            by auto
          show ?thesis
          proof (cases "writeFile (cache w) (cache_file description) s")
            case (Inl e)
            with run ss v have "r = (Rejected e, w2)" by simp
            with gt le Inl show ?thesis by (intro write_error)
          next
            case (Inr root)
            with run ss v have "r = (Fulfilled s, w2\<lparr>cache := root\<rparr>)" by simp
            with gt le Inr l2 ps show ?thesis by (intro written)
          qed
        qed
      qed
    qed
  qed
qed

section \<open>A fan-out whose pages all answer\<close>

text \<open>
  The first requests of the extractions are sent in the order of the URLs, before any
  outcome is delivered.
\<close>

lemma fetchCodeSnippets_sent:
  assumes "length us = length rs"
    and "\<forall>u \<in> set us. has_http_scheme u"
    and "\<forall>j < length us. web w (length (fetched w) + j) (us ! j) = rs ! j"
  shows "fetchCodeSnippets (map Some us) w =
    (map (Awaiting 0) rs, w\<lparr>fetched := fetched w @ us\<rparr>)"
  using assms
proof (induction us rs arbitrary: w rule: list_induct2)
  case Nil
  then show ?case by simp
next
  case (Cons u us r rs)
  let ?w1 = "w\<lparr>fetched := fetched w @ [u]\<rparr>"
  from Cons.prems(2) have r: "web w (length (fetched w)) u = r" by auto
  from Cons.prems(1) have h: "has_http_scheme u" "\<forall>u \<in> set us. has_http_scheme u"
    by simp_all
  have first: "fetchCodeSnippet (Some u) 1 w = (Awaiting 0 r, ?w1)"
    by (simp add: fetchCodeSnippet_def fetchCodeSnippet_from_def fetchWithTimeout_def h r)
  have rest: "\<forall>j < length us. web ?w1 (length (fetched ?w1) + j) (us ! j) = rs ! j"
  proof (intro allI impI)
    fix j assume "j < length us"
    then have "Suc j < length (u # us)" by simp
    with Cons.prems(2)
    have "web w (length (fetched w) + Suc j) ((u # us) ! Suc j) = (r # rs) ! Suc j"
      by blast
    then show "web ?w1 (length (fetched ?w1) + j) (us ! j) = rs ! j" by simp
  qed
  from Cons.IH [OF h(2) rest] first show ?case by simp
qed

text \<open>
  Each extraction waits for a page with code, or has returned the snippet of its page:
  a delivery makes the extraction return that snippet.
\<close>

lemma deliver_page:
  assumes "length ts = length rs"
    and "\<forall>j < length rs. snippet_try (rs ! j) = Return (sn ! j)"
    and "\<forall>j < length rs. ts ! j = Awaiting 0 (rs ! j) \<or> ts ! j = Settled (sn ! j)"
  shows "deliver urls a (ts, w) =
    (if a < length rs then ts[a := Settled (sn ! a)] else ts, w)"
proof (cases "a < length rs")
  case False
  with assms(1) show ?thesis by (simp add: deliver_def)
next
  case True
  with assms(3) have "ts ! a = Awaiting 0 (rs ! a) \<or> ts ! a = Settled (sn ! a)" by simp
  then show ?thesis
  proof
    assume "ts ! a = Awaiting 0 (rs ! a)"
    with True assms(1,2) show ?thesis by (simp add: deliver_def)
  next
    assume a: "ts ! a = Settled (sn ! a)"
    then have "ts[a := Settled (sn ! a)] = ts" by (metis list_update_id)
    with a True assms(1) show ?thesis by (simp add: deliver_def)
  qed
qed

lemma fold_deliver_pages:
  assumes ret: "\<forall>j < length rs. snippet_try (rs ! j) = Return (sn ! j)"
  shows "length ts = length rs \<Longrightarrow>
    \<forall>j < length rs. ts ! j = Awaiting 0 (rs ! j) \<or> ts ! j = Settled (sn ! j) \<Longrightarrow>
    \<exists>ts'. fold (deliver urls) schedule (ts, w) = (ts', w) \<and> length ts' = length rs \<and>
      (\<forall>j < length rs. ts' ! j = Settled (sn ! j) \<or>
         (ts' ! j = Awaiting 0 (rs ! j) \<and> ts ! j = Awaiting 0 (rs ! j) \<and> j \<notin> set schedule))"
proof (induction schedule arbitrary: ts)
  case Nil
  then show ?case by auto
next
  case (Cons a schedule)
  define ts1 where "ts1 = (if a < length rs then ts[a := Settled (sn ! a)] else ts)"
  have d: "deliver urls a (ts, w) = (ts1, w)"
    unfolding ts1_def by (rule deliver_page [OF Cons.prems(1) ret Cons.prems(2)])
  have len: "length ts1 = length rs"
    using Cons.prems(1) by (simp add: ts1_def)
  have inv: "\<forall>j < length rs. ts1 ! j = Awaiting 0 (rs ! j) \<or> ts1 ! j = Settled (sn ! j)"
    using Cons.prems by (auto simp: ts1_def nth_list_update)
  from Cons.IH [OF len inv] obtain ts' where
    f: "fold (deliver urls) schedule (ts1, w) = (ts', w)" and l: "length ts' = length rs"
    and c: "\<forall>j < length rs. ts' ! j = Settled (sn ! j) \<or>
         (ts' ! j = Awaiting 0 (rs ! j) \<and> ts1 ! j = Awaiting 0 (rs ! j) \<and> j \<notin> set schedule)"
    by blast
  have "\<forall>j < length rs. ts' ! j = Settled (sn ! j) \<or>
         (ts' ! j = Awaiting 0 (rs ! j) \<and> ts ! j = Awaiting 0 (rs ! j) \<and>
          j \<notin> set (a # schedule))"
  proof (intro allI impI)
    fix j assume j: "j < length rs"
    with c have "ts' ! j = Settled (sn ! j) \<or>
         (ts' ! j = Awaiting 0 (rs ! j) \<and> ts1 ! j = Awaiting 0 (rs ! j) \<and> j \<notin> set schedule)"
      by simp
    then show "ts' ! j = Settled (sn ! j) \<or>
         (ts' ! j = Awaiting 0 (rs ! j) \<and> ts ! j = Awaiting 0 (rs ! j) \<and>
          j \<notin> set (a # schedule))"
    proof
      assume "ts' ! j = Settled (sn ! j)"
      then show ?thesis by simp
    next
      assume b: "ts' ! j = Awaiting 0 (rs ! j) \<and> ts1 ! j = Awaiting 0 (rs ! j) \<and>
        j \<notin> set schedule"
      have ne: "j \<noteq> a"
      proof
        assume "j = a"
        with j Cons.prems(1) have "ts1 ! j = Settled (sn ! j)" by (simp add: ts1_def)
        with b show False by simp
      qed
      with b j Cons.prems(1) have "ts ! j = Awaiting 0 (rs ! j)"
        by (simp add: ts1_def split: if_splits)
      with b ne show ?thesis by simp
    qed
  qed
  with f l d show ?case by simp
qed

lemma fan_out_pages:
  assumes len: "length us = length rs" "length sn = length rs"
    and http: "\<forall>u \<in> set us. has_http_scheme u"
    and answers: "\<forall>j < length us. web w (length (fetched w) + j) (us ! j) = rs ! j"
    and ret: "\<forall>j < length rs. snippet_try (rs ! j) = Return (sn ! j)"
    and sched: "\<forall>j < length us. j \<in> set schedule"
  shows "fan_out schedule (map Some us) w =
    (map Settled sn, w\<lparr>fetched := fetched w @ us\<rparr>)"
proof -
  let ?w1 = "w\<lparr>fetched := fetched w @ us\<rparr>"
  let ?ts = "map (Awaiting 0) rs"
  have s: "fetchCodeSnippets (map Some us) w = (?ts, ?w1)"
    by (rule fetchCodeSnippets_sent [OF len(1) http answers])
  have a: "length ?ts = length rs" by simp
  have b: "\<forall>j < length rs. ?ts ! j = Awaiting 0 (rs ! j) \<or> ?ts ! j = Settled (sn ! j)"
    by simp
  from fold_deliver_pages [OF ret a b, of "map Some us" schedule ?w1] obtain ts' where
    f: "fold (deliver (map Some us)) schedule (?ts, ?w1) = (ts', ?w1)"
    and l: "length ts' = length rs"
    and c: "\<forall>j < length rs. ts' ! j = Settled (sn ! j) \<or>
         (ts' ! j = Awaiting 0 (rs ! j) \<and> ?ts ! j = Awaiting 0 (rs ! j) \<and> j \<notin> set schedule)"
    by blast
  have "ts' = map Settled sn"
  proof (rule nth_equalityI)
    show "length ts' = length (map Settled sn)" by (simp add: l len)
  next
    fix j assume "j < length ts'"
    with l have j: "j < length rs" by simp
    with sched len have "j \<in> set schedule" by simp
    with c j have "ts' ! j = Settled (sn ! j)" by blast
    with j len show "ts' ! j = map Settled sn ! j" by simp
  qed
  with f s show ?thesis by (simp add: fan_out_def)
qed

lemma fan_out_Nil: "fan_out schedule [] w = ([], w)"
proof -
  have "fold (deliver []) schedule ([], w) = ([], w)"
    by (induction schedule) (simp_all add: deliver_def)
  then show ?thesis by (simp add: fan_out_def)
qed

text \<open>
  A run in which the first attempt of the search yields links, and the first request to
  each of the URLs delivers a page with code: the requests sent are that of the search
  and one for each URL, in rank order, and the text selected is the first snippet of
  more than 200 code units.
\<close>

lemma fetchCodeFromWeb_pages:
  assumes miss: "getCached description w = Inr cached" "\<not> truthy cached"
    and enc: "encodeURIComponent (description @ js '' full project code'') = Some e"
    and search: "web w (length (fetched w)) (search_url e) = Html links cs"
      "take 5 links = map Some us" "us \<noteq> []"
    and http: "\<forall>u \<in> set us. has_http_scheme u"
    and pages: "length pages = length us"
      "\<forall>j < length us. \<exists>ls. web w (Suc (length (fetched w)) + j) (us ! j) = Html ls (pages ! j)"
      "\<forall>j < length us. pages ! j \<noteq> []"
    and sched: "\<forall>j < length us. j \<in> set schedule"
  shows "fetchCodeFromWeb schedule description w =
    (case find (\<lambda>s. 200 < length s) (map snippet_of pages) of
       None \<Rightarrow>
         (Fulfilled [],
          w\<lparr>fetched := fetched w @ search_url e # us, logged := logged w @ [Fetching]\<rparr>)
     | Some s \<Rightarrow>
         (case writeFile (cache w) (cache_file description) s of
            Inl err \<Rightarrow>
              (Rejected err,
               w\<lparr>fetched := fetched w @ search_url e # us, logged := logged w @ [Fetching]\<rparr>)
          | Inr root \<Rightarrow>
              (Fulfilled s,
               w\<lparr>cache := root, fetched := fetched w @ search_url e # us,
                 logged := logged w @ [Fetching]\<rparr>)))"
proof -
  let ?w0 = "log Fetching w"
  let ?w1 = "?w0\<lparr>fetched := fetched ?w0 @ replicate (Suc 0) (search_url e)\<rparr>"
  let ?w2 = "?w1\<lparr>fetched := fetched ?w1 @ us\<rparr>"
  from search have l: "links \<noteq> []" by auto
  have s: "fetchDuckDuckGo (description @ js '' full project code'') 2 ?w0 =
      (Some (map Some us), ?w1)"
    using fetchDuckDuckGo_from_first_links [OF enc, of 0 2 ?w0] search l
    by (simp add: fetchDuckDuckGo_def log_def links_of_def)
  define rs where "rs = map (\<lambda>j. web w (Suc (length (fetched w)) + j) (us ! j)) [0..<length us]"
  have f: "fan_out schedule (map Some us) ?w1 = (map Settled (map snippet_of pages), ?w2)"
  proof (rule fan_out_pages [where rs = rs])
    show "length us = length rs" by (simp add: rs_def)
    show "length (map snippet_of pages) = length rs" by (simp add: rs_def pages(1))
    show "\<forall>u \<in> set us. has_http_scheme u" by (rule http)
    show "\<forall>j < length us. web ?w1 (length (fetched ?w1) + j) (us ! j) = rs ! j"
      by (simp add: rs_def log_def)
    show "\<forall>j < length rs. snippet_try (rs ! j) = Return (map snippet_of pages ! j)"
      using pages by (auto simp: rs_def snippet_try_def snippet_of_def)
    show "\<forall>j < length us. j \<in> set schedule" by (rule sched)
  qed
  note run = fetchCodeFromWeb_fan_out [OF miss s f, unfolded Promise_all_Settled option.case]
  show ?thesis
    unfolding run by (simp add: log_def split: option.splits sum.splits)
qed

section \<open>Example runs\<close>

lemma encodeURIComponent_login_query:
  "encodeURIComponent (js ''login'' @ js '' full project code'') =
     Some (js ''login%20full%20project%20code'')"
  by (simp add: encodeURIComponent_def isWellFormed_def js_def is_surrogate_def
      is_high_surrogate_def is_low_surrogate_def utf8_encode_def utf8_bytes_def
      uri_escape_def uri_unreserved_def hex_digit_def)

lemma cache_file_login: "cache_file (js ''login'') = [''bG9naW4=.txt'']"
  by (simp add: cache_file_def js_def utf8_encode_def utf8_bytes_def is_surrogate_def
      is_high_surrogate_def is_low_surrogate_def b64_char_def b64_alphabet_def path_join_def)

lemma getCached_login_fresh: "cache w = Dir [] \<Longrightarrow> getCached (js ''login'') w = Inr None"
  by (simp add: getCached_def cache_file_login pathExists_def NAME_MAX_def Let_def)

lemma getCached_login_entry:
  "cache w = Dir [(''bG9naW4=.txt'', File t)] \<Longrightarrow> getCached (js ''login'') w = Inr (Some t)"
  by (simp add: getCached_def cache_file_login pathExists_def readFile_def NAME_MAX_def Let_def)

lemma getCached_login_directory:
  "cache w = Dir [(''bG9naW4=.txt'', Dir [])] \<Longrightarrow> getCached (js ''login'') w = Inl EISDIR"
  by (simp add: getCached_def cache_file_login pathExists_def readFile_def NAME_MAX_def Let_def)

lemma getCached_long_fresh: "cache w = Dir [] \<Longrightarrow> getCached (replicate 200 0x61) w = Inr None"
  by (simp add: getCached_def pathExists_def long_lookup Let_def)

lemma encodeURIComponent_long:
  "\<exists>e. encodeURIComponent (replicate 200 0x61 @ js '' full project code'') = Some e"
proof -
  have "isWellFormed (replicate 200 0x61 @ js '' full project code'')"
    by (simp add: isWellFormed_def toWellFormed_replicate_append [OF plain_a] js_def
        is_surrogate_def is_high_surrogate_def is_low_surrogate_def)
  then show ?thesis by (simp add: encodeURIComponent_def)
qed

lemma toWellFormed_letters: "toWellFormed (replicate n 0x61) = replicate n 0x61"
  using isWellFormed_replicate [OF plain_a] by (simp add: isWellFormed_def)

lemma login_write:
  "writeFile (Dir []) (cache_file (js ''login'')) (replicate 300 0x61) =
     Inr (Dir [(''bG9naW4=.txt'', File (replicate 300 0x61))])"
  "writeFile (Dir [(''bG9naW4=.txt'', File [])]) (cache_file (js ''login'')) (replicate 300 0x61) =
     Inr (Dir [(''bG9naW4=.txt'', File (replicate 300 0x61))])"
  by (simp_all add: cache_file_login NAME_MAX_def toWellFormed_letters)

text \<open>A run without network: the three attempts of the search throw.\<close>

lemma offline_search:
  assumes enc: "encodeURIComponent query = Some e" and "\<forall>n url. web w n url = Threw"
  shows "fetchDuckDuckGo query 2 w =
     (Some [], w\<lparr>fetched := fetched w @ replicate 3 (search_url e),
                 logged := logged w @ [SearchFailed]\<rparr>)"
  using fetchDuckDuckGo_from_no_links [OF enc, of 2 w] assms(2)
  by (simp add: fetchDuckDuckGo_def no_links_def numeral_3_eq_3)

lemma offline_run:
  "fetchCodeFromWeb [] (js ''login'') fresh_world =
     (Fulfilled [],
      fresh_world\<lparr>fetched := replicate 3 (search_url (js ''login%20full%20project%20code'')),
                    logged := [Fetching, SearchFailed]\<rparr>)"
proof -
  have miss: "getCached (js ''login'') fresh_world = Inr None" "\<not> truthy None"
    by (simp_all add: getCached_login_fresh fresh_world_def)
  have off: "\<forall>n url. web (log Fetching fresh_world) n url = Threw"
    by (simp add: log_def fresh_world_def offline_def)
  note s = offline_search [OF encodeURIComponent_login_query off]
  from fetchCodeFromWeb_fan_out [OF miss s fan_out_Nil]
  show ?thesis by (simp add: Promise_all_def log_def fresh_world_def)
qed

text \<open>The three pages of the specification's selection scenario.\<close>

lemma three_pages_answers:
  "three_pages n (search_url e) =
     Html [Some (js ''http://a/1''), Some (js ''http://a/2''), Some (js ''http://a/3'')] []"
  "three_pages n (js ''http://a/1'') = Html [] [replicate 50 0x61]"
  "three_pages n (js ''http://a/2'') = Html [] [replicate 300 0x61]"
  "three_pages n (js ''http://a/3'') = Html [] [replicate 900 0x61]"
  by (simp_all add: three_pages_def search_url_def js_def)

lemma has_http_scheme_pages:
  "has_http_scheme (js ''http://a/1'')" "has_http_scheme (js ''http://a/2'')"
  "has_http_scheme (js ''http://a/3'')"
  by (simp_all add: has_http_scheme_def js_def ascii_lower_def)

lemma three_pages_search:
  assumes enc: "encodeURIComponent query = Some e" and "web w = three_pages"
  shows "fetchDuckDuckGo query 2 w =
     (Some [Some (js ''http://a/1''), Some (js ''http://a/2''), Some (js ''http://a/3'')],
      w\<lparr>fetched := fetched w @ [search_url e]\<rparr>)"
  using fetchDuckDuckGo_from_first_links [OF enc, of 0 2 w] assms(2)
  by (simp add: fetchDuckDuckGo_def three_pages_answers links_of_def)

lemma three_pages_fan_out:
  assumes "web w = three_pages" and "0 \<in> set schedule" "Suc 0 \<in> set schedule"
    "2 \<in> set schedule"
  shows "fan_out schedule
      [Some (js ''http://a/1''), Some (js ''http://a/2''), Some (js ''http://a/3'')] w =
     (map Settled [replicate 50 0x61, replicate 300 0x61, replicate 900 0x61],
      w\<lparr>fetched := fetched w @ [js ''http://a/1'', js ''http://a/2'', js ''http://a/3'']\<rparr>)"
proof -
  let ?us = "[js ''http://a/1'', js ''http://a/2'', js ''http://a/3'']"
  let ?rs = "[Html [] [replicate 50 0x61], Html [] [replicate 300 0x61],
    Html [] [replicate 900 0x61]]"
  let ?sn = "[replicate 50 0x61, replicate 300 0x61, replicate 900 (0x61 :: 16 word)]"
  have all3: "(\<forall>j < Suc (Suc (Suc 0)). P j) = (P 0 \<and> P (Suc 0) \<and> P (Suc (Suc 0)))"
    for P :: "nat \<Rightarrow> bool"
    by (auto simp: less_Suc_eq)
  from assms(4) have two: "Suc (Suc 0) \<in> set schedule" by (simp add: numeral_2_eq_2)
  have "fan_out schedule (map Some ?us) w = (map Settled ?sn, w\<lparr>fetched := fetched w @ ?us\<rparr>)"
  proof (rule fan_out_pages [where rs = ?rs])
    show "length ?us = length ?rs" by simp
    show "length ?sn = length ?rs" by simp
    show "\<forall>u \<in> set ?us. has_http_scheme u" by (simp add: has_http_scheme_pages)
    show "\<forall>j < length ?us. web w (length (fetched w) + j) (?us ! j) = ?rs ! j"
      by (simp add: all3 assms(1) three_pages_answers)
    show "\<forall>j < length ?rs. snippet_try (?rs ! j) = Return (?sn ! j)"
      by (simp add: all3 snippet_try_def)
    show "\<forall>j < length ?us. j \<in> set schedule"
      using assms(2,3) two by (simp add: all3)
  qed
  then show ?thesis by simp
qed

lemma three_pages_run:
  assumes miss: "getCached description w = Inr cached" "\<not> truthy cached"
    and enc: "encodeURIComponent (description @ js '' full project code'') = Some e"
    and wb: "web w = three_pages"
    and sched: "0 \<in> set schedule" "Suc 0 \<in> set schedule" "2 \<in> set schedule"
  shows "fetchCodeFromWeb schedule description w =
    (case writeFile (cache w) (cache_file description) (replicate 300 0x61) of
       Inl err \<Rightarrow>
         (Rejected err,
          w\<lparr>fetched := fetched w @
               [search_url e, js ''http://a/1'', js ''http://a/2'', js ''http://a/3''],
            logged := logged w @ [Fetching]\<rparr>)
     | Inr root \<Rightarrow>
         (Fulfilled (replicate 300 0x61),
          w\<lparr>cache := root,
            fetched := fetched w @
               [search_url e, js ''http://a/1'', js ''http://a/2'', js ''http://a/3''],
            logged := logged w @ [Fetching]\<rparr>))"
proof -
  let ?w0 = "log Fetching w"
  have wb0: "web ?w0 = three_pages" by (simp add: log_def wb)
  note s = three_pages_search [OF enc wb0]
  have wb1: "web (?w0\<lparr>fetched := fetched ?w0 @ [search_url e]\<rparr>) = three_pages"
    by (simp add: log_def wb)
  note f = three_pages_fan_out [OF wb1 sched]
  note run = fetchCodeFromWeb_fan_out [OF miss s f, unfolded Promise_all_Settled option.case]
  show ?thesis
    unfolding run by (simp add: log_def split: sum.splits)
qed

text \<open>A web on which every page holds one result link and 300 characters of code.\<close>

lemma always_code_run:
  assumes miss: "getCached description w = Inr cached" "\<not> truthy cached"
    and enc: "encodeURIComponent (description @ js '' full project code'') = Some e"
    and wb: "web w = always_code"
  shows "fetchCodeFromWeb [0] description w =
    (case writeFile (cache w) (cache_file description) (replicate 300 0x61) of
       Inl err \<Rightarrow>
         (Rejected err,
          w\<lparr>fetched := fetched w @ [search_url e, js ''http://a/2''],
            logged := logged w @ [Fetching]\<rparr>)
     | Inr root \<Rightarrow>
         (Fulfilled (replicate 300 0x61),
          w\<lparr>cache := root,
            fetched := fetched w @ [search_url e, js ''http://a/2''],
            logged := logged w @ [Fetching]\<rparr>))"
proof -
  have "fetchCodeFromWeb [0] description w =
    (case find (\<lambda>s. 200 < length s) (map snippet_of [[replicate 300 0x61]]) of
       None \<Rightarrow>
         (Fulfilled [],
          w\<lparr>fetched := fetched w @ search_url e # [js ''http://a/2''],
            logged := logged w @ [Fetching]\<rparr>)
     | Some s \<Rightarrow>
         (case writeFile (cache w) (cache_file description) s of
            Inl err \<Rightarrow>
              (Rejected err,
               w\<lparr>fetched := fetched w @ search_url e # [js ''http://a/2''],
                 logged := logged w @ [Fetching]\<rparr>)
          | Inr root \<Rightarrow>
              (Fulfilled s,
               w\<lparr>cache := root, fetched := fetched w @ search_url e # [js ''http://a/2''],
                 logged := logged w @ [Fetching]\<rparr>)))"
  proof (rule fetchCodeFromWeb_pages [OF miss enc])
    show "web w (length (fetched w)) (search_url e) =
        Html [Some (js ''http://a/2'')] [replicate 300 0x61]"
      by (simp add: wb always_code_def)
    show "take 5 [Some (js ''http://a/2'')] = map Some [js ''http://a/2'']" by simp
    show "[js ''http://a/2''] \<noteq> []" by simp
    show "\<forall>u \<in> set [js ''http://a/2'']. has_http_scheme u"
      by (simp add: has_http_scheme_pages)
    show "length [[replicate 300 (0x61 :: 16 word)]] = length [js ''http://a/2'']" by simp
    show "\<forall>j < length [js ''http://a/2'']. \<exists>ls.
        web w (Suc (length (fetched w)) + j) ([js ''http://a/2''] ! j) =
          Html ls ([[replicate 300 0x61]] ! j)"
      by (simp add: wb always_code_def)
    show "\<forall>j < length [js ''http://a/2'']. [[replicate 300 (0x61 :: 16 word)]] ! j \<noteq> []"
      by simp
    show "\<forall>j < length [js ''http://a/2'']. j \<in> set [0]" by simp
  qed
  then show ?thesis by (simp add: snippet_of_def)
qed

text \<open>
  The first request of every extraction is sent before any retry. On the web that
  answers by the number of the request, the request to the first URL fails, the
  second URL gets the page of letters \<open>a\<close>, and the retry of the first URL is the fourth
  request of the run: the first extraction returns the letters \<open>b\<close>, after the second
  extraction has returned, and its text is the one selected.
\<close>

lemma numbered_pages_run:
  "fetchCodeFromWeb [0, 1, 0] (js ''login'') (fresh_world\<lparr>web := numbered_pages\<rparr>) =
     (Fulfilled (replicate 300 0x62),
      fresh_world\<lparr>cache := Dir [(''bG9naW4=.txt'', File (replicate 300 0x62))],
        web := numbered_pages,
        fetched := [search_url (js ''login%20full%20project%20code''),
                    js ''http://a/1'', js ''http://a/2'', js ''http://a/1''],
        logged := [Fetching]\<rparr>)"
proof -
  let ?w = "fresh_world\<lparr>web := numbered_pages\<rparr>"
  let ?e = "js ''login%20full%20project%20code''"
  let ?w1 = "fresh_world\<lparr>web := numbered_pages, fetched := [search_url ?e],
    logged := [Fetching]\<rparr>"
  let ?w2 = "fresh_world\<lparr>web := numbered_pages,
    fetched := [search_url ?e, js ''http://a/1'', js ''http://a/2'', js ''http://a/1''],
    logged := [Fetching]\<rparr>"
  have miss: "getCached (js ''login'') ?w = Inr None" "\<not> truthy None"
    by (simp_all add: getCached_login_fresh fresh_world_def)
  have search: "fetchDuckDuckGo (js ''login'' @ js '' full project code'') 2 (log Fetching ?w) =
      (Some [Some (js ''http://a/1''), Some (js ''http://a/2'')], ?w1)"
    using fetchDuckDuckGo_from_first_links [OF encodeURIComponent_login_query, of 0 2
        "log Fetching ?w"]
    by (simp add: fetchDuckDuckGo_def numbered_pages_def links_of_def log_def fresh_world_def)
  have fan: "fan_out [0, 1, 0] [Some (js ''http://a/1''), Some (js ''http://a/2'')] ?w1 =
      (map Settled [replicate 300 0x62, replicate 300 0x61], ?w2)"
    by (simp add: fan_out_def fetchCodeSnippet_def fetchCodeSnippet_from_def
        fetchWithTimeout_def has_http_scheme_pages deliver_def snippet_try_def
        numbered_pages_def fresh_world_def)
  have "\<not> is_surrogate (0x62 :: 16 word)" by (simp add: is_surrogate_def)
  from isWellFormed_replicate [OF this]
  have wf: "toWellFormed (replicate 300 0x62) = replicate 300 0x62"
    by (simp add: isWellFormed_def)
  have wr: "writeFile (cache ?w) (cache_file (js ''login'')) (replicate 300 0x62) =
      Inr (Dir [(''bG9naW4=.txt'', File (replicate 300 0x62))])"
    by (simp add: cache_file_login NAME_MAX_def wf fresh_world_def)
  have f: "find (\<lambda>s. 200 < length s) [replicate 300 0x62, replicate 300 (0x61 :: 16 word)] =
      Some (replicate 300 0x62)"
    by simp
  note run = fetchCodeFromWeb_fan_out [OF miss search fan,
      unfolded Promise_all_Settled option.case f wr sum.case]
  show ?thesis unfolding run by (simp add: fresh_world_def)
qed

lemma all_less_3:
  "(\<forall>j < Suc (Suc (Suc 0)). P j) = (P 0 \<and> P (Suc 0) \<and> P (Suc (Suc 0)))"
  by (auto simp: less_Suc_eq)

lemma three_pages_fresh_run:
  "fetchCodeFromWeb [2, 0, 1] (js ''login'') (fresh_world\<lparr>web := three_pages\<rparr>) =
     (Fulfilled (replicate 300 0x61),
      fresh_world\<lparr>cache := Dir [(''bG9naW4=.txt'', File (replicate 300 0x61))],
        web := three_pages,
        fetched := [search_url (js ''login%20full%20project%20code''),
                    js ''http://a/1'', js ''http://a/2'', js ''http://a/3''],
        logged := [Fetching]\<rparr>)"
proof -
  let ?w = "fresh_world\<lparr>web := three_pages\<rparr>"
  have miss: "getCached (js ''login'') ?w = Inr None" "\<not> truthy None"
    by (simp_all add: getCached_login_fresh fresh_world_def)
  have wb: "web ?w = three_pages" by simp
  have sched: "0 \<in> set [2, 0, 1::nat]" "Suc 0 \<in> set [2, 0, 1::nat]" "2 \<in> set [2, 0, 1::nat]"
    by simp_all
  have c: "cache ?w = Dir []" by (simp add: fresh_world_def)
  note run = three_pages_run [OF miss encodeURIComponent_login_query wb sched,
      unfolded c login_write sum.case]
  show ?thesis unfolding run by (simp add: fresh_world_def)
qed

lemma cached_run:
  "fst (fetchCodeFromWeb [] (js ''login'')
     (fresh_world\<lparr>cache := Dir [(''bG9naW4=.txt'', File (replicate 300 0x61))]\<rparr>)) =
   Fulfilled (replicate 300 0x61)"
  by (simp add: fetchCodeFromWeb_def getCached_log getCached_login_entry Let_def)

section \<open>The order of the deliveries\<close>

text \<open>
  On a network that answers by the URL alone and on which no body hangs, what an
  extraction returns does not depend on the order of the deliveries.
\<close>

lemma fetchWithTimeout_page:
  assumes "web w = (\<lambda>n. page)"
  shows "fst (fetchWithTimeout url w) = outcome page url"
    and "web (snd (fetchWithTimeout url w)) = (\<lambda>n. page)"
  using assms by (simp_all add: fetchWithTimeout_def outcome_def split: option.splits)

lemma fetchCodeSnippet_from_page:
  assumes "web w = (\<lambda>n. page)" and "i \<le> retries"
  shows "fst (fetchCodeSnippet_from i url retries w) = Awaiting i (outcome page url)"
    and "web (snd (fetchCodeSnippet_from i url retries w)) = (\<lambda>n. page)"
  using assms fetchWithTimeout_page [OF assms(1), of url]
  by (simp_all add: fetchCodeSnippet_from_def case_prod_unfold)

lemma outcome_no_hang: "\<forall>u. page u \<noteq> Hangs \<Longrightarrow> outcome page url \<noteq> Hangs"
  by (simp add: outcome_def split: option.splits)

lemma fetchCodeSnippet_resume_page:
  assumes wb: "web w = (\<lambda>n. page)" and nh: "\<forall>u. page u \<noteq> Hangs"
    and i: "i \<le> 1"
  shows "web (snd (fetchCodeSnippet_resume url 1 (Awaiting i (outcome page url)) w)) =
      (\<lambda>n. page)"
    and "fst (fetchCodeSnippet_resume url 1 (Awaiting i (outcome page url)) w) =
        Settled (extracted page url)
      \<or> (i = 0 \<and> fst (fetchCodeSnippet_resume url 1 (Awaiting i (outcome page url)) w) =
            Awaiting 1 (outcome page url))"
proof -
  let ?r = "outcome page url"
  let ?w1 = "if i = 1 then log (SnippetFailed url) w else w"
  have wb1: "web ?w1 = (\<lambda>n. page)" by (simp add: log_def wb)
  have last: "fetchCodeSnippet_from (Suc (Suc 0)) url (Suc 0) v = (Settled [], v)" for v
    by (simp add: fetchCodeSnippet_from_def)
  have both: "web (snd (fetchCodeSnippet_resume url 1 (Awaiting i ?r) w)) = (\<lambda>n. page)
    \<and> (fst (fetchCodeSnippet_resume url 1 (Awaiting i ?r) w) = Settled (extracted page url)
      \<or> (i = 0 \<and> fst (fetchCodeSnippet_resume url 1 (Awaiting i ?r) w) = Awaiting 1 ?r))"
  proof (cases "snippet_try ?r")
    case (Return s)
    then show ?thesis by (simp add: extracted_def wb)
  next
    case Fallthrough
    then have e: "extracted page url = []" by (simp add: extracted_def)
    show ?thesis
    proof (cases "i = 0")
      case True
      with Fallthrough fetchCodeSnippet_from_page [OF wb, of 1 1 url] show ?thesis by simp
    next
      case False
      with i have "i = Suc 0" by simp
      with Fallthrough e last wb show ?thesis by simp
    qed
  next
    case Caught
    then have e: "extracted page url = []" by (simp add: extracted_def)
    show ?thesis
    proof (cases "i = 0")
      case True
      with Caught fetchCodeSnippet_from_page [OF wb, of 1 1 url] show ?thesis by simp
    next
      case False
      with i have "i = Suc 0" by simp
      with Caught e last wb show ?thesis by (simp add: log_def)
    qed
  next
    case Never
    with outcome_no_hang [OF nh, of url] show ?thesis
      by (simp add: snippet_try_def split: response.splits if_splits)
  qed
  from both show "web (snd (fetchCodeSnippet_resume url 1 (Awaiting i ?r) w)) = (\<lambda>n. page)"
    by simp
  from both show "fst (fetchCodeSnippet_resume url 1 (Awaiting i ?r) w) =
        Settled (extracted page url)
      \<or> (i = 0 \<and> fst (fetchCodeSnippet_resume url 1 (Awaiting i ?r) w) = Awaiting 1 ?r)"
    by simp
qed


lemma fetchCodeSnippets_page:
  "web w = (\<lambda>n. page) \<Longrightarrow>
   fst (fetchCodeSnippets urls w) = map (\<lambda>url. Awaiting 0 (outcome page url)) urls
   \<and> web (snd (fetchCodeSnippets urls w)) = (\<lambda>n. page)"
proof (induction urls arbitrary: w)
  case Nil
  then show ?case by simp
next
  case (Cons url urls)
  let ?w1 = "snd (fetchCodeSnippet_from 0 url 1 w)"
  from fetchCodeSnippet_from_page [OF Cons.prems, of 0 1 url]
  have t: "fst (fetchCodeSnippet_from 0 url 1 w) = Awaiting 0 (outcome page url)"
    and wb1: "web ?w1 = (\<lambda>n. page)"
    by simp_all
  from Cons.IH [OF wb1] t show ?case
    by (simp add: fetchCodeSnippet_def case_prod_unfold)
qed

text \<open>
  A delivery leaves every other extraction as it is and brings the one it resumes one
  attempt nearer to its return.
\<close>

lemma deliver_page_order:
  assumes wb: "web w = (\<lambda>n. page)" and nh: "\<forall>u. page u \<noteq> Hangs"
    and len: "length ts = length urls"
    and inv: "\<forall>j < length urls. ts ! j = Settled (extracted page (urls ! j)) \<or>
      (\<exists>i \<le> 1. ts ! j = Awaiting i (outcome page (urls ! j)))"
  shows "\<exists>ts' w'. deliver urls a (ts, w) = (ts', w') \<and> web w' = (\<lambda>n. page) \<and>
    length ts' = length urls \<and>
    (\<forall>j < length urls. ts' ! j = Settled (extracted page (urls ! j)) \<or>
      (\<exists>i \<le> 1. ts' ! j = Awaiting i (outcome page (urls ! j)))) \<and>
    (\<forall>j < length urls.
       attempts_left (ts' ! j) \<le> attempts_left (ts ! j) - (if j = a then 1 else 0))"
proof (cases "a < length urls")
  case False
  with len have "deliver urls a (ts, w) = (ts, w)" by (simp add: deliver_def)
  with wb len inv False show ?thesis by auto
next
  case True
  let ?url = "urls ! a"
  from inv True have "ts ! a = Settled (extracted page ?url) \<or>
      (\<exists>i \<le> 1. ts ! a = Awaiting i (outcome page ?url))"
    by simp
  then show ?thesis
  proof
    assume s: "ts ! a = Settled (extracted page ?url)"
    then have "ts[a := Settled (extracted page ?url)] = ts" by (metis list_update_id)
    with s True len have d: "deliver urls a (ts, w) = (ts, w)" by (simp add: deliver_def)
    from s have "attempts_left (ts ! a) = 0" by (simp add: attempts_left_def)
    then have "\<forall>j < length urls.
        attempts_left (ts ! j) \<le> attempts_left (ts ! j) - (if j = a then 1 else 0)"
      by simp
    with d wb len inv show ?thesis by blast
  next
    assume "\<exists>i \<le> 1. ts ! a = Awaiting i (outcome page ?url)"
    then obtain i where i: "i \<le> 1" and t: "ts ! a = Awaiting i (outcome page ?url)"
      by blast
    define t' where "t' = fst (fetchCodeSnippet_resume ?url 1 (ts ! a) w)"
    define w' where "w' = snd (fetchCodeSnippet_resume ?url 1 (ts ! a) w)"
    from fetchCodeSnippet_resume_page [OF wb nh i, of ?url]
    have wb': "web w' = (\<lambda>n. page)"
      and t'': "t' = Settled (extracted page ?url) \<or> (i = 0 \<and> t' = Awaiting 1 (outcome page ?url))"
      by (simp_all add: t'_def w'_def t)
    have d: "deliver urls a (ts, w) = (ts[a := t'], w')"
      using True len by (simp add: deliver_def t'_def w'_def case_prod_unfold)
    have inv': "\<forall>j < length urls. ts[a := t'] ! j = Settled (extracted page (urls ! j)) \<or>
        (\<exists>i \<le> 1. ts[a := t'] ! j = Awaiting i (outcome page (urls ! j)))"
    proof (intro allI impI)
      fix j assume j: "j < length urls"
      show "ts[a := t'] ! j = Settled (extracted page (urls ! j)) \<or>
        (\<exists>i \<le> 1. ts[a := t'] ! j = Awaiting i (outcome page (urls ! j)))"
      proof (cases "j = a")
        case True
        with j len t'' show ?thesis by auto
      next
        case False
        with j inv show ?thesis by simp
      qed
    qed
    have left: "\<forall>j < length urls.
        attempts_left (ts[a := t'] ! j) \<le> attempts_left (ts ! j) - (if j = a then 1 else 0)"
    proof (intro allI impI)
      fix j assume j: "j < length urls"
      show "attempts_left (ts[a := t'] ! j) \<le>
          attempts_left (ts ! j) - (if j = a then 1 else 0)"
      proof (cases "j = a")
        case True
        from t'' have "attempts_left t' \<le> attempts_left (Awaiting i (outcome page ?url)) - 1"
          using i by (auto simp: attempts_left_def)
        with True j len t show ?thesis by simp
      next
        case False
        then show ?thesis by simp
      qed
    qed
    from d wb' len inv' left show ?thesis by simp
  qed
qed

lemma fold_deliver_page_order:
  assumes nh: "\<forall>u. page u \<noteq> Hangs"
  shows "web w = (\<lambda>n. page) \<Longrightarrow> length ts = length urls \<Longrightarrow>
    \<forall>j < length urls. ts ! j = Settled (extracted page (urls ! j)) \<or>
      (\<exists>i \<le> 1. ts ! j = Awaiting i (outcome page (urls ! j))) \<Longrightarrow>
    \<exists>ts' w'. fold (deliver urls) schedule (ts, w) = (ts', w') \<and>
      length ts' = length urls \<and>
      (\<forall>j < length urls. ts' ! j = Settled (extracted page (urls ! j)) \<or>
        (\<exists>i \<le> 1. ts' ! j = Awaiting i (outcome page (urls ! j)))) \<and>
      (\<forall>j < length urls.
         attempts_left (ts' ! j) \<le> attempts_left (ts ! j) - count_list schedule j)"
proof (induction schedule arbitrary: ts w)
  case Nil
  then show ?case by simp
next
  case (Cons a schedule)
  from deliver_page_order [OF Cons.prems(1) nh Cons.prems(2,3), of a]
  obtain ts1 w1 where d: "deliver urls a (ts, w) = (ts1, w1)"
    and wb1: "web w1 = (\<lambda>n. page)" and len1: "length ts1 = length urls"
    and inv1: "\<forall>j < length urls. ts1 ! j = Settled (extracted page (urls ! j)) \<or>
      (\<exists>i \<le> 1. ts1 ! j = Awaiting i (outcome page (urls ! j)))"
    and left1: "\<forall>j < length urls.
       attempts_left (ts1 ! j) \<le> attempts_left (ts ! j) - (if j = a then 1 else 0)"
    by blast
  from Cons.IH [OF wb1 len1 inv1]
  obtain ts' w' where f: "fold (deliver urls) schedule (ts1, w1) = (ts', w')"
    and len': "length ts' = length urls"
    and inv': "\<forall>j < length urls. ts' ! j = Settled (extracted page (urls ! j)) \<or>
        (\<exists>i \<le> 1. ts' ! j = Awaiting i (outcome page (urls ! j)))"
    and left': "\<forall>j < length urls.
         attempts_left (ts' ! j) \<le> attempts_left (ts1 ! j) - count_list schedule j"
    by blast
  have "\<forall>j < length urls.
      attempts_left (ts' ! j) \<le> attempts_left (ts ! j) - count_list (a # schedule) j"
  proof (intro allI impI)
    fix j assume j: "j < length urls"
    with left1 left' have
      "attempts_left (ts1 ! j) \<le> attempts_left (ts ! j) - (if j = a then 1 else 0)"
      "attempts_left (ts' ! j) \<le> attempts_left (ts1 ! j) - count_list schedule j"
      by simp_all
    then show "attempts_left (ts' ! j) \<le> attempts_left (ts ! j) - count_list (a # schedule) j"
      by (cases "j = a") auto
  qed
  with d f len' inv' show ?case by simp
qed

lemma fan_out_page_order:
  assumes wb: "web w = (\<lambda>n. page)" and nh: "\<forall>u. page u \<noteq> Hangs"
    and sched: "\<forall>j < length urls. 2 \<le> count_list schedule j"
  shows "\<exists>w'. fan_out schedule urls w = (map (\<lambda>url. Settled (extracted page url)) urls, w')"
proof -
  define ts0 where "ts0 = fst (fetchCodeSnippets urls w)"
  define w0 where "w0 = snd (fetchCodeSnippets urls w)"
  from fetchCodeSnippets_page [OF wb, of urls]
  have ts0: "ts0 = map (\<lambda>url. Awaiting 0 (outcome page url)) urls"
    and wb0: "web w0 = (\<lambda>n. page)"
    by (simp_all add: ts0_def w0_def)
  have len0: "length ts0 = length urls" by (simp add: ts0)
  have inv0: "\<forall>j < length urls. ts0 ! j = Settled (extracted page (urls ! j)) \<or>
      (\<exists>i \<le> 1. ts0 ! j = Awaiting i (outcome page (urls ! j)))"
    by (simp add: ts0)
  from fold_deliver_page_order [OF nh wb0 len0 inv0, of schedule]
  obtain ts' w' where f: "fold (deliver urls) schedule (ts0, w0) = (ts', w')"
    and len': "length ts' = length urls"
    and inv': "\<forall>j < length urls. ts' ! j = Settled (extracted page (urls ! j)) \<or>
        (\<exists>i \<le> 1. ts' ! j = Awaiting i (outcome page (urls ! j)))"
    and left': "\<forall>j < length urls.
         attempts_left (ts' ! j) \<le> attempts_left (ts0 ! j) - count_list schedule j"
    by blast
  have "ts' = map (\<lambda>url. Settled (extracted page url)) urls"
  proof (rule nth_equalityI)
    show "length ts' = length (map (\<lambda>url. Settled (extracted page url)) urls)"
      by (simp add: len')
  next
    fix j assume "j < length ts'"
    with len' have j: "j < length urls" by simp
    with left' sched have "attempts_left (ts' ! j) \<le> attempts_left (ts0 ! j) - 2"
      by (meson diff_le_mono2 le_trans)
    with j have z: "attempts_left (ts' ! j) = 0" by (simp add: ts0 attempts_left_def)
    from inv' j have "ts' ! j = Settled (extracted page (urls ! j)) \<or>
        (\<exists>i \<le> 1. ts' ! j = Awaiting i (outcome page (urls ! j)))"
      by simp
    with z have "ts' ! j = Settled (extracted page (urls ! j))"
      by (auto simp: attempts_left_def)
    with j show "ts' ! j = map (\<lambda>url. Settled (extracted page url)) urls ! j" by simp
  qed
  with f have "fan_out schedule urls w = (map (\<lambda>url. Settled (extracted page url)) urls, w')"
    by (simp add: fan_out_def ts0_def w0_def)
  then show ?thesis by blast
qed

text \<open>
  So on such a network, once the search has returned its URLs, the outcome of
  \<open>fetchCodeFromWeb\<close> is the same for every order of the deliveries that lets each
  extraction make its two attempts: the first text of more than 200 code units in the
  rank order of the URLs.
\<close>

lemma delivery_order_irrelevant:
  assumes wb: "web w = (\<lambda>n. page)" and nh: "\<forall>u. page u \<noteq> Hangs"
    and miss: "getCached description w = Inr cached" "\<not> truthy cached"
    and search: "fetchDuckDuckGo (description @ js '' full project code'') 2 (log Fetching w) =
      (Some urls, w1)"
    and sched: "\<forall>j < length urls. 2 \<le> count_list schedule j"
  shows "fst (fetchCodeFromWeb schedule description w) =
    (case find (\<lambda>s. 200 < length s) (map (extracted page) urls) of
       None \<Rightarrow> Fulfilled []
     | Some s \<Rightarrow>
         (case writeFile (cache w) (cache_file description) s of
            Inl err \<Rightarrow> Rejected err
          | Inr root \<Rightarrow> Fulfilled s))"
proof -
  from fetchDuckDuckGo_later [OF search] have wb1: "web w1 = (\<lambda>n. page)"
    by (simp add: later_def log_def wb)
  from fan_out_page_order [OF wb1 nh sched] obtain w2 where
    "fan_out schedule urls w1 = (map (\<lambda>url. Settled (extracted page url)) urls, w2)"
    by blast
  then have f: "fan_out schedule urls w1 = (map Settled (map (extracted page) urls), w2)"
    by (simp add: comp_def)
  note run = fetchCodeFromWeb_fan_out [OF miss search f,
      unfolded Promise_all_Settled option.case]
  show ?thesis
    unfolding run by (simp split: option.splits sum.splits)
qed

section \<open>Properties of the orchestrator\<close>

text \<open>
  C7, as amended. When the cache lookup of a query returns a non-empty text (the text
  passes the test \<open>if (cached)\<close>), \<open>fetchCodeFromWeb\<close> returns that text unchanged; it
  logs two messages, sends no request (neither to the search engine nor to a result
  page) and leaves the cache as it is.
\<close>

theorem cache_hit_returns_cached:
  assumes "getCached description w = Inr (Some cached)" and "cached \<noteq> []"
  shows "fetchCodeFromWeb schedule description w =
           (Fulfilled cached, log UsingCached (log Fetching w))
         \<and> fetched (snd (fetchCodeFromWeb schedule description w)) = fetched w
         \<and> cache (snd (fetchCodeFromWeb schedule description w)) = cache w"
proof -
  from assms have "fetchCodeFromWeb schedule description w =
      (Fulfilled cached, log UsingCached (log Fetching w))"
    by (simp add: fetchCodeFromWeb_def getCached_log Let_def)
  then show ?thesis by (simp add: log_def)
qed

text \<open>A cache that holds a snippet of 300 characters for the query: no request is sent.\<close>

theorem cache_hit_returns_cached_witness:
  "getCached (js ''login'')
     (fresh_world\<lparr>cache := Dir [(''bG9naW4=.txt'', File (replicate 300 0x61))]\<rparr>) =
     Inr (Some (replicate 300 0x61))
   \<and> fst (fetchCodeFromWeb [] (js ''login'')
        (fresh_world\<lparr>cache := Dir [(''bG9naW4=.txt'', File (replicate 300 0x61))]\<rparr>)) =
       Fulfilled (replicate 300 0x61)
   \<and> fetched (snd (fetchCodeFromWeb [] (js ''login'')
        (fresh_world\<lparr>cache := Dir [(''bG9naW4=.txt'', File (replicate 300 0x61))]\<rparr>))) = []"
proof -
  let ?w = "fresh_world\<lparr>cache := Dir [(''bG9naW4=.txt'', File (replicate 300 0x61))]\<rparr>"
  have hit: "getCached (js ''login'') ?w = Inr (Some (replicate 300 0x61))"
    by (simp add: getCached_login_entry)
  have ne: "replicate 300 (0x61 :: 16 word) \<noteq> []" by simp
  from cache_hit_returns_cached [OF hit ne, of "[]"] hit show ?thesis
    by (simp add: fresh_world_def log_def)
qed

text \<open>
  C7 as stated fails when the cache file of the query is empty: \<open>getCached\<close> returns
  the cached text, which is the empty string, and \<open>fetchCodeFromWeb\<close> sends four
  requests and returns another text.
\<close>

theorem cache_hit_counterexample:
  "getCached (js ''login'')
     (fresh_world\<lparr>cache := Dir [(''bG9naW4=.txt'', File [])], web := three_pages\<rparr>) =
     Inr (Some [])
   \<and> fetchCodeFromWeb [0, 1, 2] (js ''login'')
       (fresh_world\<lparr>cache := Dir [(''bG9naW4=.txt'', File [])], web := three_pages\<rparr>) =
     (Fulfilled (replicate 300 0x61),
      fresh_world\<lparr>cache := Dir [(''bG9naW4=.txt'', File (replicate 300 0x61))],
        web := three_pages,
        fetched := [search_url (js ''login%20full%20project%20code''),
                    js ''http://a/1'', js ''http://a/2'', js ''http://a/3''],
        logged := [Fetching]\<rparr>)"
proof -
  let ?w = "fresh_world\<lparr>cache := Dir [(''bG9naW4=.txt'', File [])], web := three_pages\<rparr>"
  have c: "cache ?w = Dir [(''bG9naW4=.txt'', File [])]" by simp
  have miss: "getCached (js ''login'') ?w = Inr (Some [])" "\<not> truthy (Some [])"
    by (simp_all add: getCached_login_entry)
  have wb: "web ?w = three_pages" by simp
  have sched: "0 \<in> set [0, 1, 2::nat]" "Suc 0 \<in> set [0, 1, 2::nat]" "2 \<in> set [0, 1, 2::nat]"
    by simp_all
  note run = three_pages_run [OF miss encodeURIComponent_login_query wb sched,
      unfolded c login_write sum.case]
  have "fetchCodeFromWeb [0, 1, 2] (js ''login'') ?w =
     (Fulfilled (replicate 300 0x61),
      fresh_world\<lparr>cache := Dir [(''bG9naW4=.txt'', File (replicate 300 0x61))],
        web := three_pages,
        fetched := [search_url (js ''login%20full%20project%20code''),
                    js ''http://a/1'', js ''http://a/2'', js ''http://a/3''],
        logged := [Fetching]\<rparr>)"
    unfolding run by (simp add: fresh_world_def)
  with miss(1) show ?thesis by (intro conjI)
qed

text \<open>
  C10. When the cache entry of a query exists and holds the empty text,
  \<open>fetchCodeFromWeb\<close> does not return it: it goes on with the search, the fan-out, the
  selection and the write-through. For a well-formed query the first request it sends
  is the one to the search engine, whatever the network answers. And when the search
  page answers with links and the page of each of the (first five) links holds code,
  every outcome being delivered, the requests sent are that of the search and one for
  each URL in rank order, and the call ends with the first snippet of more than 200
  code units: it writes it over the empty cache entry and returns it (or rejects with
  the error of the write).
\<close>

theorem empty_cache_entry_is_miss:
  assumes empty: "getCached description w = Inr (Some [])"
    and enc: "encodeURIComponent (description @ js '' full project code'') = Some e"
  shows
    "(\<exists>rest. fetched (snd (fetchCodeFromWeb schedule description w)) =
        fetched w @ search_url e # rest)
     \<and> (web w (length (fetched w)) (search_url e) = Html links cs \<and>
        take 5 links = map Some us \<and> (\<forall>u \<in> set us. has_http_scheme u) \<and>
        length pages = length us \<and>
        (\<forall>j < length us. \<exists>ls.
           web w (Suc (length (fetched w)) + j) (us ! j) = Html ls (pages ! j)) \<and>
        (\<forall>j < length us. pages ! j \<noteq> []) \<and>
        (\<forall>j < length us. j \<in> set schedule) \<and>
        i < length us \<and> 200 < length (snippet_of (pages ! i)) \<and>
        (\<forall>j < i. length (snippet_of (pages ! j)) \<le> 200)
        \<longrightarrow>
        fetchCodeFromWeb schedule description w =
          (case writeFile (cache w) (cache_file description) (snippet_of (pages ! i)) of
             Inl err \<Rightarrow>
               (Rejected err,
                w\<lparr>fetched := fetched w @ search_url e # us,
                  logged := logged w @ [Fetching]\<rparr>)
           | Inr root \<Rightarrow>
               (Fulfilled (snippet_of (pages ! i)),
                w\<lparr>cache := root, fetched := fetched w @ search_url e # us,
                  logged := logged w @ [Fetching]\<rparr>)))"
proof (intro conjI impI)
  let ?q = "description @ js '' full project code''"
  have miss: "getCached description w = Inr (Some [])" "\<not> truthy (Some [])"
    using empty by simp_all
  obtain r w1 where s: "fetchDuckDuckGo ?q 2 (log Fetching w) = (r, w1)"
    by (cases "fetchDuckDuckGo ?q 2 (log Fetching w)")
  from fetchDuckDuckGo_first_request [OF enc s]
  obtain rest1 where f1: "fetched w1 = fetched w @ search_url e # rest1"
    by (auto simp: log_def)
  show "\<exists>rest. fetched (snd (fetchCodeFromWeb schedule description w)) =
      fetched w @ search_url e # rest"
  proof (cases r)
    case None
    from fetchCodeFromWeb_search_pending [OF miss s [unfolded None]] f1
    show ?thesis by simp
  next
    case (Some urls)
    obtain ts w2 where f: "fan_out schedule urls w1 = (ts, w2)"
      by (cases "fan_out schedule urls w1")
    from fan_out_ok [OF f] obtain rest2 where f2: "fetched w2 = fetched w1 @ rest2"
      by (auto simp: later_iff)
    from fetchCodeFromWeb_fan_out [OF miss s [unfolded Some] f]
    have "fetched (snd (fetchCodeFromWeb schedule description w)) = fetched w2"
      by (simp split: option.splits sum.splits)
    with f1 f2 show ?thesis by simp
  qed
next
  assume a: "web w (length (fetched w)) (search_url e) = Html links cs \<and>
        take 5 links = map Some us \<and> (\<forall>u \<in> set us. has_http_scheme u) \<and>
        length pages = length us \<and>
        (\<forall>j < length us. \<exists>ls.
           web w (Suc (length (fetched w)) + j) (us ! j) = Html ls (pages ! j)) \<and>
        (\<forall>j < length us. pages ! j \<noteq> []) \<and>
        (\<forall>j < length us. j \<in> set schedule) \<and>
        i < length us \<and> 200 < length (snippet_of (pages ! i)) \<and>
        (\<forall>j < i. length (snippet_of (pages ! j)) \<le> 200)"
  have miss: "getCached description w = Inr (Some [])" "\<not> truthy (Some [])"
    using empty by simp_all
  from a have search: "web w (length (fetched w)) (search_url e) = Html links cs"
    "take 5 links = map Some us"
    and http: "\<forall>u \<in> set us. has_http_scheme u"
    and pages: "length pages = length us"
      "\<forall>j < length us. \<exists>ls. web w (Suc (length (fetched w)) + j) (us ! j) = Html ls (pages ! j)"
      "\<forall>j < length us. pages ! j \<noteq> []"
    and sched: "\<forall>j < length us. j \<in> set schedule"
    and i: "i < length us" "200 < length (snippet_of (pages ! i))"
      "\<forall>j < i. length (snippet_of (pages ! j)) \<le> 200"
    by blast+
  from i(1) have ne: "us \<noteq> []" by auto
  have "find (\<lambda>s. 200 < length s) (map snippet_of pages) = Some (map snippet_of pages ! i)"
  proof (rule find_first)
    show "i < length (map snippet_of pages)" using i(1) pages(1) by simp
    show "200 < length (map snippet_of pages ! i)" using i(1,2) pages(1) by simp
    show "\<forall>j < i. \<not> 200 < length (map snippet_of pages ! j)"
      using i(1,3) pages(1) by (simp add: not_less)
  qed
  with i(1) pages(1)
  have f: "find (\<lambda>s. 200 < length s) (map snippet_of pages) = Some (snippet_of (pages ! i))"
    by simp
  show "fetchCodeFromWeb schedule description w =
          (case writeFile (cache w) (cache_file description) (snippet_of (pages ! i)) of
             Inl err \<Rightarrow>
               (Rejected err,
                w\<lparr>fetched := fetched w @ search_url e # us,
                  logged := logged w @ [Fetching]\<rparr>)
           | Inr root \<Rightarrow>
               (Fulfilled (snippet_of (pages ! i)),
                w\<lparr>cache := root, fetched := fetched w @ search_url e # us,
                  logged := logged w @ [Fetching]\<rparr>))"
    unfolding fetchCodeFromWeb_pages [OF miss enc search ne http pages sched] f
    by simp
qed

text \<open>
  An empty cache file for the query, on the web of the selection scenario, the third
  extraction finishing first: the search and the three pages are requested, and the
  snippet of the second page is written over the empty entry and returned.
\<close>

theorem empty_cache_entry_is_miss_witness:
  "getCached (js ''login'')
     (fresh_world\<lparr>cache := Dir [(''bG9naW4=.txt'', File [])], web := three_pages\<rparr>) =
     Inr (Some [])
   \<and> fetchCodeFromWeb [2, 0, 1] (js ''login'')
       (fresh_world\<lparr>cache := Dir [(''bG9naW4=.txt'', File [])], web := three_pages\<rparr>) =
     (Fulfilled (replicate 300 0x61),
      fresh_world\<lparr>cache := Dir [(''bG9naW4=.txt'', File (replicate 300 0x61))],
        web := three_pages,
        fetched := [search_url (js ''login%20full%20project%20code''),
                    js ''http://a/1'', js ''http://a/2'', js ''http://a/3''],
        logged := [Fetching]\<rparr>)"
proof -
  let ?w = "fresh_world\<lparr>cache := Dir [(''bG9naW4=.txt'', File [])], web := three_pages\<rparr>"
  let ?e = "js ''login%20full%20project%20code''"
  let ?links = "[Some (js ''http://a/1''), Some (js ''http://a/2''), Some (js ''http://a/3'')]"
  let ?us = "[js ''http://a/1'', js ''http://a/2'', js ''http://a/3'']"
  let ?pages = "[[replicate 50 0x61], [replicate 300 0x61], [replicate 900 (0x61 :: 16 word)]]"
  have empty: "getCached (js ''login'') ?w = Inr (Some [])"
    by (simp add: getCached_login_entry)
  have scenario: "web ?w (length (fetched ?w)) (search_url ?e) = Html ?links [] \<and>
        take 5 ?links = map Some ?us \<and> (\<forall>u \<in> set ?us. has_http_scheme u) \<and>
        length ?pages = length ?us \<and>
        (\<forall>j < length ?us. \<exists>ls.
           web ?w (Suc (length (fetched ?w)) + j) (?us ! j) = Html ls (?pages ! j)) \<and>
        (\<forall>j < length ?us. ?pages ! j \<noteq> []) \<and>
        (\<forall>j < length ?us. j \<in> set [2, 0, 1]) \<and>
        Suc 0 < length ?us \<and> 200 < length (snippet_of (?pages ! Suc 0)) \<and>
        (\<forall>j < Suc 0. length (snippet_of (?pages ! j)) \<le> 200)"
    by (simp add: all_less_3 three_pages_answers has_http_scheme_pages snippet_of_def
        fresh_world_def numeral_2_eq_2)
  from empty_cache_entry_is_miss [OF empty encodeURIComponent_login_query,
      of "[2, 0, 1]" ?links "[]" ?us ?pages "Suc 0"] scenario
  have run: "fetchCodeFromWeb [2, 0, 1] (js ''login'') ?w =
          (case writeFile (cache ?w) (cache_file (js ''login'')) (snippet_of (?pages ! Suc 0)) of
             Inl err \<Rightarrow>
               (Rejected err,
                ?w\<lparr>fetched := fetched ?w @ search_url ?e # ?us,
                  logged := logged ?w @ [Fetching]\<rparr>)
           | Inr root \<Rightarrow>
               (Fulfilled (snippet_of (?pages ! Suc 0)),
                ?w\<lparr>cache := root, fetched := fetched ?w @ search_url ?e # ?us,
                  logged := logged ?w @ [Fetching]\<rparr>))"
    by blast
  have s: "snippet_of (?pages ! Suc 0) = replicate 300 0x61" by (simp add: snippet_of_def)
  have c: "cache ?w = Dir [(''bG9naW4=.txt'', File [])]" by simp
  have "fetchCodeFromWeb [2, 0, 1] (js ''login'') ?w =
     (Fulfilled (replicate 300 0x61),
      fresh_world\<lparr>cache := Dir [(''bG9naW4=.txt'', File (replicate 300 0x61))],
        web := three_pages,
        fetched := [search_url (js ''login%20full%20project%20code''),
                    js ''http://a/1'', js ''http://a/2'', js ''http://a/3''],
        logged := [Fetching]\<rparr>)"
    unfolding run s c login_write sum.case by (simp add: fresh_world_def)
  with empty show ?thesis by (intro conjI)
qed

text \<open>
  C5. When the query has no cache entry and \<open>fetchCodeFromWeb\<close> returns the empty
  string, the cache directory is as it was, and \<open>getCached\<close> of the query still
  misses.
\<close>

theorem empty_result_not_cached:
  assumes "getCached description w = Inr None"
    and "fst (fetchCodeFromWeb schedule description w) = Fulfilled []"
  shows "cache (snd (fetchCodeFromWeb schedule description w)) = cache w
         \<and> getCached description (snd (fetchCodeFromWeb schedule description w)) = Inr None"
proof -
  have c: "cache (snd (fetchCodeFromWeb schedule description w)) = cache w"
  proof (cases rule: fetchCodeFromWeb_cases [of description w schedule])
    case (read_error e)
    with assms(2) show ?thesis by simp
  next
    case (hit t)
    with assms(1) show ?thesis by simp
  next
    case (pending w2)
    with assms(2) show ?thesis by simp
  next
    case (no_snippet w2)
    then show ?thesis by (simp add: later_def)
  next
    case (write_error s e w2)
    with assms(2) show ?thesis by simp
  next
    case (written s root w2)
    with assms(2) show ?thesis by auto
  qed
  from getCached_cache [OF c] assms(1) c show ?thesis by simp
qed

text \<open>A run without network on an empty cache: the empty string, and no cache entry.\<close>

theorem empty_result_not_cached_witness:
  "getCached (js ''login'') fresh_world = Inr None
   \<and> fst (fetchCodeFromWeb [] (js ''login'') fresh_world) = Fulfilled []
   \<and> cache (snd (fetchCodeFromWeb [] (js ''login'') fresh_world)) = Dir []
   \<and> getCached (js ''login'') (snd (fetchCodeFromWeb [] (js ''login'') fresh_world)) = Inr None"
proof -
  have miss: "getCached (js ''login'') fresh_world = Inr None"
    by (simp add: getCached_login_fresh fresh_world_def)
  have empty: "fst (fetchCodeFromWeb [] (js ''login'') fresh_world) = Fulfilled []"
    by (simp add: offline_run)
  from empty_result_not_cached [OF miss empty] miss empty show ?thesis
    by (simp add: fresh_world_def)
qed

text \<open>
  C9. On a cache directory in which every file holds a text of more than 200 and at
  most 5000 code units (an empty cache is one), every non-empty text that
  \<open>fetchCodeFromWeb\<close> returns, from the cache or from the network, has more than 200
  and at most 5000 code units, and the cache directory is again such a directory
  afterwards.
\<close>

theorem returned_text_bounds:
  assumes "valid_entries (cache w)"
    and "fst (fetchCodeFromWeb schedule description w) = Fulfilled s"
    and "s \<noteq> []"
  shows "200 < length s \<and> length s \<le> 5000
         \<and> valid_entries (cache (snd (fetchCodeFromWeb schedule description w)))"
proof (cases rule: fetchCodeFromWeb_cases [of description w schedule])
  case (read_error e)
  with assms(2) show ?thesis by simp
next
  case (hit t)
  with assms(2) have st: "s = t"
    and c: "cache (snd (fetchCodeFromWeb schedule description w)) = cache w"
    by (simp_all add: log_def)
  from hit(1) have "lookup (cache w) (cache_file description) = Inr (File t)"
    by (auto simp: getCached_def Let_def pathExists_def readFile_def
        split: if_splits sum.splits node.splits)
  from lookup_valid_entries [OF assms(1) this] st c assms(1) show ?thesis by simp
next
  case (pending w2)
  with assms(2) show ?thesis by simp
next
  case (no_snippet w2)
  with assms(2,3) show ?thesis by simp
next
  case (write_error t e w2)
  with assms(2) show ?thesis by simp
next
  case (written t root w2)
  with assms(2) have st: "s = t" by simp
  from writeFile_valid_entries [OF written(1,2) assms(1) written(3)]
  have "valid_entries root" .
  with written st show ?thesis by simp
qed

text \<open>
  The selection scenario, and a second run of the same query on a cache that holds its
  snippet: both return 300 characters and leave a cache of valid entries.
\<close>

theorem returned_text_bounds_witness:
  "valid_entries (cache (fresh_world\<lparr>web := three_pages\<rparr>))
   \<and> fst (fetchCodeFromWeb [2, 0, 1] (js ''login'') (fresh_world\<lparr>web := three_pages\<rparr>)) =
       Fulfilled (replicate 300 0x61)
   \<and> valid_entries (cache (snd
        (fetchCodeFromWeb [2, 0, 1] (js ''login'') (fresh_world\<lparr>web := three_pages\<rparr>))))
   \<and> valid_entries (cache
        (fresh_world\<lparr>cache := Dir [(''bG9naW4=.txt'', File (replicate 300 0x61))]\<rparr>))
   \<and> fst (fetchCodeFromWeb [] (js ''login'')
        (fresh_world\<lparr>cache := Dir [(''bG9naW4=.txt'', File (replicate 300 0x61))]\<rparr>)) =
       Fulfilled (replicate 300 0x61)
   \<and> 200 < length (replicate 300 (0x61 :: 16 word))
   \<and> length (replicate 300 (0x61 :: 16 word)) \<le> 5000"
proof -
  let ?w = "fresh_world\<lparr>web := three_pages\<rparr>"
  let ?c = "fresh_world\<lparr>cache := Dir [(''bG9naW4=.txt'', File (replicate 300 0x61))]\<rparr>"
  have v1: "valid_entries (cache ?w)" by (simp add: fresh_world_def)
  have v2: "valid_entries (cache ?c)" by simp
  have r1: "fst (fetchCodeFromWeb [2, 0, 1] (js ''login'') ?w) = Fulfilled (replicate 300 0x61)"
    unfolding three_pages_fresh_run by simp
  have ne: "replicate 300 (0x61 :: 16 word) \<noteq> []" by simp
  from returned_text_bounds [OF v1 r1 ne] returned_text_bounds [OF v2 cached_run ne]
    v1 v2 r1 cached_run
  show ?thesis by simp
qed

text \<open>
  C1, as amended. On a cache miss, when the search has returned the URLs and every
  extraction has returned, whatever the order in which their outcomes were delivered,
  \<open>fetchCodeFromWeb\<close> selects the first text, in the rank order of the URLs, of more
  than 200 code units, which is the snippet of a page that a request to the URL of that
  rank has delivered. It writes it to the cache and returns it; when the write throws,
  it rejects with the error of the write and returns nothing.
\<close>

theorem first_valid_snippet_wins:
  assumes miss: "getCached description w = Inr cached" "\<not> truthy cached"
    and search: "fetchDuckDuckGo (description @ js '' full project code'') 2 (log Fetching w) =
      (Some urls, w1)"
    and fan: "fan_out schedule urls w1 = (map Settled snippets, w2)"
    and i: "i < length snippets"
    and valid: "200 < length (snippets ! i)"
    and first: "\<forall>j < i. length (snippets ! j) \<le> 200"
  shows "fetchCodeFromWeb schedule description w =
           (case writeFile (cache w) (cache_file description) (snippets ! i) of
              Inl err \<Rightarrow> (Rejected err, w2)
            | Inr root \<Rightarrow> (Fulfilled (snippets ! i), w2\<lparr>cache := root\<rparr>))
         \<and> page_snippet w2 (urls ! i) (snippets ! i)"
proof -
  from first have "\<forall>j < i. \<not> 200 < length (snippets ! j)"
    by (simp add: not_less)
  with i valid have f: "find (\<lambda>s. 200 < length s) snippets = Some (snippets ! i)"
    by (intro find_first) simp_all
  note run = fetchCodeFromWeb_fan_out [OF miss search fan,
      unfolded Promise_all_Settled option.case f]
  from valid have "snippets ! i \<noteq> []" by auto
  with fan_out_snippets(2) [OF fan] i have "page_snippet w2 (urls ! i) (snippets ! i)"
    by blast
  with run show ?thesis by simp
qed

text \<open>
  The selection scenario: pages with code of 50, 300 and 900 characters, the third
  extraction finishing first; the text written and returned is the second snippet.
\<close>

theorem first_valid_snippet_wins_witness:
  "fan_out [2, 0, 1]
     [Some (js ''http://a/1''), Some (js ''http://a/2''), Some (js ''http://a/3'')]
     (fresh_world\<lparr>web := three_pages,
        fetched := [search_url (js ''login%20full%20project%20code'')],
        logged := [Fetching]\<rparr>) =
     (map Settled [replicate 50 0x61, replicate 300 0x61, replicate 900 0x61],
      fresh_world\<lparr>web := three_pages,
        fetched := [search_url (js ''login%20full%20project%20code''),
                    js ''http://a/1'', js ''http://a/2'', js ''http://a/3''],
        logged := [Fetching]\<rparr>)
   \<and> fetchCodeFromWeb [2, 0, 1] (js ''login'') (fresh_world\<lparr>web := three_pages\<rparr>) =
     (Fulfilled (replicate 300 0x61),
      fresh_world\<lparr>cache := Dir [(''bG9naW4=.txt'', File (replicate 300 0x61))],
        web := three_pages,
        fetched := [search_url (js ''login%20full%20project%20code''),
                    js ''http://a/1'', js ''http://a/2'', js ''http://a/3''],
        logged := [Fetching]\<rparr>)
   \<and> page_snippet
       (fresh_world\<lparr>web := three_pages,
          fetched := [search_url (js ''login%20full%20project%20code''),
                      js ''http://a/1'', js ''http://a/2'', js ''http://a/3''],
          logged := [Fetching]\<rparr>)
       (Some (js ''http://a/2'')) (replicate 300 0x61)"
proof -
  let ?w = "fresh_world\<lparr>web := three_pages\<rparr>"
  let ?e = "js ''login%20full%20project%20code''"
  let ?urls = "[Some (js ''http://a/1''), Some (js ''http://a/2''), Some (js ''http://a/3'')]"
  let ?sn = "[replicate 50 0x61, replicate 300 0x61, replicate 900 (0x61 :: 16 word)]"
  let ?w1 = "fresh_world\<lparr>web := three_pages, fetched := [search_url ?e],
    logged := [Fetching]\<rparr>"
  let ?w2 = "fresh_world\<lparr>web := three_pages,
    fetched := [search_url ?e, js ''http://a/1'', js ''http://a/2'', js ''http://a/3''],
    logged := [Fetching]\<rparr>"
  have miss: "getCached (js ''login'') ?w = Inr None" "\<not> truthy None"
    by (simp_all add: getCached_login_fresh fresh_world_def)
  have wb0: "web (log Fetching ?w) = three_pages" by (simp add: log_def)
  have search: "fetchDuckDuckGo (js ''login'' @ js '' full project code'') 2 (log Fetching ?w) =
      (Some ?urls, ?w1)"
    unfolding three_pages_search [OF encodeURIComponent_login_query wb0]
    by (simp add: log_def fresh_world_def)
  have wb1: "web ?w1 = three_pages" by simp
  have sched: "0 \<in> set [2, 0, 1::nat]" "Suc 0 \<in> set [2, 0, 1::nat]" "2 \<in> set [2, 0, 1::nat]"
    by simp_all
  have fan: "fan_out [2, 0, 1] ?urls ?w1 = (map Settled ?sn, ?w2)"
    unfolding three_pages_fan_out [OF wb1 sched] by (simp add: fresh_world_def)
  have i: "Suc 0 < length ?sn" and valid: "200 < length (?sn ! Suc 0)"
    and first: "\<forall>j < Suc 0. length (?sn ! j) \<le> 200"
    by simp_all
  have c: "cache ?w = Dir []" by (simp add: fresh_world_def)
  have n: "?sn ! Suc 0 = replicate 300 0x61" "?urls ! Suc 0 = Some (js ''http://a/2'')"
    by simp_all
  from first_valid_snippet_wins [OF miss search fan i valid first]
  have run: "fetchCodeFromWeb [2, 0, 1] (js ''login'') ?w =
      (Fulfilled (replicate 300 0x61),
       ?w2\<lparr>cache := Dir [(''bG9naW4=.txt'', File (replicate 300 0x61))]\<rparr>)"
    and page: "page_snippet ?w2 (Some (js ''http://a/2'')) (replicate 300 0x61)"
    unfolding n c login_write sum.case by blast+
  have "fetchCodeFromWeb [2, 0, 1] (js ''login'') ?w =
     (Fulfilled (replicate 300 0x61),
      fresh_world\<lparr>cache := Dir [(''bG9naW4=.txt'', File (replicate 300 0x61))],
        web := three_pages,
        fetched := [search_url ?e, js ''http://a/1'', js ''http://a/2'', js ''http://a/3''],
        logged := [Fetching]\<rparr>)"
    unfolding run by (simp add: fresh_world_def)
  with fan page show ?thesis by (intro conjI)
qed

text \<open>
  C1 as stated fails on a description of 200 letters, on the web of the selection
  scenario: the page of the second URL delivers the snippet of 300 characters, which is
  the first of more than 200, and \<open>fetchCodeFromWeb\<close> does not return it: the cache
  write throws ENAMETOOLONG and the call rejects.
\<close>

theorem first_valid_snippet_counterexample:
  "fst (fetchCodeFromWeb [0, 1, 2] (replicate 200 0x61) (fresh_world\<lparr>web := three_pages\<rparr>)) =
     Rejected ENAMETOOLONG
   \<and> page_snippet
       (snd (fetchCodeFromWeb [0, 1, 2] (replicate 200 0x61) (fresh_world\<lparr>web := three_pages\<rparr>)))
       (Some (js ''http://a/2'')) (replicate 300 0x61)
   \<and> tl (fetched
       (snd (fetchCodeFromWeb [0, 1, 2] (replicate 200 0x61) (fresh_world\<lparr>web := three_pages\<rparr>)))) =
     [js ''http://a/1'', js ''http://a/2'', js ''http://a/3'']"
proof -
  let ?w = "fresh_world\<lparr>web := three_pages\<rparr>"
  let ?d = "replicate 200 (0x61 :: 16 word)"
  from encodeURIComponent_long obtain e where
    enc: "encodeURIComponent (?d @ js '' full project code'') = Some e"
    by blast
  let ?w2 = "?w\<lparr>fetched := fetched ?w @
      [search_url e, js ''http://a/1'', js ''http://a/2'', js ''http://a/3''],
    logged := logged ?w @ [Fetching]\<rparr>"
  have miss: "getCached ?d ?w = Inr None" "\<not> truthy None"
    by (simp_all add: getCached_long_fresh fresh_world_def)
  have wb: "web ?w = three_pages" by simp
  have sched: "0 \<in> set [0, 1, 2::nat]" "Suc 0 \<in> set [0, 1, 2::nat]" "2 \<in> set [0, 1, 2::nat]"
    by simp_all
  have c: "cache ?w = Dir []" by (simp add: fresh_world_def)
  note run = three_pages_run [OF miss enc wb sched, unfolded c long_write sum.case]
  have page: "page_snippet ?w2 (Some (js ''http://a/2'')) (replicate 300 0x61)"
    unfolding page_snippet_def
    by (intro bexI [of _ 2])
       (simp_all add: fresh_world_def three_pages_answers snippet_of_def)
  have "tl (fetched ?w2) = [js ''http://a/1'', js ''http://a/2'', js ''http://a/3'']"
    by (simp add: fresh_world_def)
  with page show ?thesis unfolding run by simp
qed

text \<open>
  C4, as amended. Whatever the network does, \<open>fetchCodeFromWeb\<close> rejects only with
  the error of the cache read (\<open>getCached\<close>) or of the cache write (\<open>writeFile\<close> of a
  snippet to the cache file of the query), which it does not catch: timeouts, network
  errors and parse errors do not make it reject. When the cache lookup does not hit
  and every request fails, it returns the empty string, after one failure message of
  the search. And what it returns is the empty string, the cached text, or the snippet,
  of more than 200 and at most 5000 code units, of a page that a request of the run
  has delivered.
\<close>

theorem retrieve_outcomes:
  "(fst (fetchCodeFromWeb schedule description w) = Rejected err \<longrightarrow>
      getCached description w = Inl err
      \<or> (\<exists>t. 200 < length t \<and> length t \<le> 5000 \<and>
           writeFile (cache w) (cache_file description) t = Inl err))
   \<and> (getCached description w = Inr cached \<and> \<not> truthy cached \<and>
      (\<forall>n url. web w n url = Threw) \<longrightarrow>
      fst (fetchCodeFromWeb schedule description w) = Fulfilled [] \<and>
      logged (snd (fetchCodeFromWeb schedule description w)) =
        logged w @ [Fetching, SearchFailed] \<and>
      cache (snd (fetchCodeFromWeb schedule description w)) = cache w)
   \<and> (fst (fetchCodeFromWeb schedule description w) = Fulfilled s \<longrightarrow>
      s = [] \<or> getCached description w = Inr (Some s)
      \<or> (200 < length s \<and> length s \<le> 5000 \<and>
          (\<exists>url. page_snippet (snd (fetchCodeFromWeb schedule description w)) url s)))"
proof -
  have rejects: "getCached description w = Inl err
      \<or> (\<exists>t. 200 < length t \<and> length t \<le> 5000 \<and>
           writeFile (cache w) (cache_file description) t = Inl err)"
    if r: "fst (fetchCodeFromWeb schedule description w) = Rejected err"
  proof (cases rule: fetchCodeFromWeb_cases [of description w schedule])
    case (read_error e)
    with r show ?thesis by simp
  next
    case (hit t)
    with r show ?thesis by simp
  next
    case (pending w2)
    with r show ?thesis by simp
  next
    case (no_snippet w2)
    with r show ?thesis by simp
  next
    case (write_error t e w2)
    with r have "e = err" by simp
    with write_error show ?thesis by blast
  next
    case (written t root w2)
    with r show ?thesis by simp
  qed
  have returns: "s = [] \<or> getCached description w = Inr (Some s)
      \<or> (200 < length s \<and> length s \<le> 5000 \<and>
          (\<exists>url. page_snippet (snd (fetchCodeFromWeb schedule description w)) url s))"
    if r: "fst (fetchCodeFromWeb schedule description w) = Fulfilled s"
  proof (cases rule: fetchCodeFromWeb_cases [of description w schedule])
    case (read_error e)
    with r show ?thesis by simp
  next
    case (hit t)
    with r show ?thesis by simp
  next
    case (pending w2)
    with r show ?thesis by simp
  next
    case (no_snippet w2)
    with r show ?thesis by simp
  next
    case (write_error t e w2)
    with r show ?thesis by simp
  next
    case (written t root w2)
    with r have st: "s = t" by simp
    from written(6) have "\<exists>url. page_snippet (w2\<lparr>cache := root\<rparr>) url t"
      by (simp add: page_snippet_def)
    with written(1,2,4) st show ?thesis by simp
  qed
  have offline: "fst (fetchCodeFromWeb schedule description w) = Fulfilled [] \<and>
      logged (snd (fetchCodeFromWeb schedule description w)) =
        logged w @ [Fetching, SearchFailed] \<and>
      cache (snd (fetchCodeFromWeb schedule description w)) = cache w"
    if a: "getCached description w = Inr cached \<and> \<not> truthy cached \<and>
      (\<forall>n url. web w n url = Threw)"
  proof -
    let ?q = "description @ js '' full project code''"
    let ?w0 = "log Fetching w"
    from a have miss: "getCached description w = Inr cached" "\<not> truthy cached"
      and off: "\<forall>n url. web ?w0 n url = Threw"
      by (simp_all add: log_def)
    have "\<exists>w1. fetchDuckDuckGo ?q 2 ?w0 = (Some [], w1) \<and>
        logged w1 = logged w @ [Fetching, SearchFailed] \<and> cache w1 = cache w"
    proof (cases "encodeURIComponent ?q")
      case None
      from fetchDuckDuckGo_from_URIError [OF None, of 0 2 ?w0] show ?thesis
        by (simp add: fetchDuckDuckGo_def log_def)
    next
      case (Some e)
      from offline_search [OF Some off] show ?thesis by (simp add: log_def)
    qed
    then obtain w1 where s: "fetchDuckDuckGo ?q 2 ?w0 = (Some [], w1)"
      and l: "logged w1 = logged w @ [Fetching, SearchFailed]" and c: "cache w1 = cache w"
      by blast
    from fetchCodeFromWeb_fan_out [OF miss s fan_out_Nil]
    have "fetchCodeFromWeb schedule description w = (Fulfilled [], w1)"
      by (simp add: Promise_all_def)
    with l c show ?thesis by simp
  qed
  from rejects offline returns show ?thesis by blast
qed

text \<open>
  A cache entry that is a directory: the read throws EISDIR and the call rejects with
  it. A run without network on an empty cache: every fetch throws, and the call
  returns the empty string. And the selection scenario: the text returned is the
  snippet of a page of the run.
\<close>

theorem retrieve_outcomes_witness:
  "fst (fetchCodeFromWeb [] (js ''login'')
        (fresh_world\<lparr>cache := Dir [(''bG9naW4=.txt'', Dir [])]\<rparr>)) = Rejected EISDIR
   \<and> (getCached (js ''login'') (fresh_world\<lparr>cache := Dir [(''bG9naW4=.txt'', Dir [])]\<rparr>) =
        Inl EISDIR
      \<or> (\<exists>t. 200 < length t \<and> length t \<le> 5000 \<and>
           writeFile (cache (fresh_world\<lparr>cache := Dir [(''bG9naW4=.txt'', Dir [])]\<rparr>))
             (cache_file (js ''login'')) t = Inl EISDIR))
   \<and> getCached (js ''login'') fresh_world = Inr None
   \<and> fst (fetchCodeFromWeb [] (js ''login'') fresh_world) = Fulfilled []
   \<and> logged (snd (fetchCodeFromWeb [] (js ''login'') fresh_world)) = [Fetching, SearchFailed]
   \<and> fst (fetchCodeFromWeb [2, 0, 1] (js ''login'') (fresh_world\<lparr>web := three_pages\<rparr>)) =
       Fulfilled (replicate 300 0x61)
   \<and> (\<exists>url. page_snippet
         (snd (fetchCodeFromWeb [2, 0, 1] (js ''login'') (fresh_world\<lparr>web := three_pages\<rparr>)))
         url (replicate 300 0x61))"
proof -
  let ?d = "fresh_world\<lparr>cache := Dir [(''bG9naW4=.txt'', Dir [])]\<rparr>"
  let ?w = "fresh_world\<lparr>web := three_pages\<rparr>"
  have g: "getCached (js ''login'') ?d = Inl EISDIR"
    by (simp add: getCached_login_directory)
  then have r: "fst (fetchCodeFromWeb [] (js ''login'') ?d) = Rejected EISDIR"
    by (simp add: fetchCodeFromWeb_def getCached_log Let_def)
  from retrieve_outcomes [of "[]" "js ''login''" ?d EISDIR] r
  have a: "getCached (js ''login'') ?d = Inl EISDIR
      \<or> (\<exists>t. 200 < length t \<and> length t \<le> 5000 \<and>
           writeFile (cache ?d) (cache_file (js ''login'')) t = Inl EISDIR)"
    by blast
  have miss: "getCached (js ''login'') fresh_world = Inr None"
    by (simp add: getCached_login_fresh fresh_world_def)
  have off: "\<forall>n url. web fresh_world n url = Threw"
    by (simp add: fresh_world_def offline_def)
  from retrieve_outcomes [of "[]" "js ''login''" fresh_world _ None] miss off
  have b: "fst (fetchCodeFromWeb [] (js ''login'') fresh_world) = Fulfilled []"
    and l: "logged (snd (fetchCodeFromWeb [] (js ''login'') fresh_world)) =
      logged fresh_world @ [Fetching, SearchFailed]"
    by simp_all
  from l have l': "logged (snd (fetchCodeFromWeb [] (js ''login'') fresh_world)) =
      [Fetching, SearchFailed]"
    by (simp add: fresh_world_def)
  have f: "fst (fetchCodeFromWeb [2, 0, 1] (js ''login'') ?w) = Fulfilled (replicate 300 0x61)"
    unfolding three_pages_fresh_run by simp
  have ne: "replicate 300 (0x61 :: 16 word) \<noteq> []" by simp
  have miss': "getCached (js ''login'') ?w \<noteq> Inr (Some (replicate 300 0x61))"
    by (simp add: getCached_login_fresh fresh_world_def)
  from retrieve_outcomes [of "[2, 0, 1]" "js ''login''" ?w _ _ "replicate 300 0x61"] f ne miss'
  have p: "\<exists>url. page_snippet (snd (fetchCodeFromWeb [2, 0, 1] (js ''login'') ?w)) url
      (replicate 300 0x61)"
    by blast
  from r a miss b l' f p show ?thesis by (intro conjI)
qed

text \<open>
  C4 as stated fails on a description of 200 letters whose search finds a valid
  snippet: the cache write throws ENAMETOOLONG and \<open>fetchCodeFromWeb\<close> rejects.
\<close>

theorem retrieve_counterexample:
  "fst (fetchCodeFromWeb [0] (replicate 200 0x61) (fresh_world\<lparr>web := always_code\<rparr>)) =
     Rejected ENAMETOOLONG"
proof -
  let ?w = "fresh_world\<lparr>web := always_code\<rparr>"
  let ?d = "replicate 200 (0x61 :: 16 word)"
  from encodeURIComponent_long obtain e where
    enc: "encodeURIComponent (?d @ js '' full project code'') = Some e"
    by blast
  have miss: "getCached ?d ?w = Inr None" "\<not> truthy None"
    by (simp_all add: getCached_long_fresh fresh_world_def)
  have wb: "web ?w = always_code" by simp
  have c: "cache ?w = Dir []" by (simp add: fresh_world_def)
  note run = always_code_run [OF miss enc wb, unfolded c long_write sum.case]
  show ?thesis unfolding run by simp
qed

end
